theory Spec2Isabelle
  imports Main "HOL-Library.Sublist" "HOL-Library.Product_Lexorder"
begin

section \<open>Python strings\<close>

text \<open>
  Strings are lists of 8-bit characters and stand for ASCII text. The helpers below are the
  \<^verbatim>\<open>str\<close> methods that \<^verbatim>\<open>scripts/orchestrate_queue.py\<close> calls, restricted to ASCII:
  \<^verbatim>\<open>str.isspace\<close> holds of the characters 0x09-0x0D, 0x1C-0x1F and the blank.
\<close>

definition py_isspace :: "char \<Rightarrow> bool" where
  "py_isspace c =
     (c \<in> set [CHR 0x09, CHR 0x0A, CHR 0x0B, CHR 0x0C, CHR 0x0D,
                CHR 0x1C, CHR 0x1D, CHR 0x1E, CHR 0x1F, CHR 0x20])"

definition lstrip :: "string \<Rightarrow> string" where
  "lstrip s = dropWhile py_isspace s"

definition rstrip :: "string \<Rightarrow> string" where
  "rstrip s = rev (dropWhile py_isspace (rev s))"

definition strip :: "string \<Rightarrow> string" where
  "strip s = rstrip (lstrip s)"

definition lower_char :: "char \<Rightarrow> char" where
  "lower_char c =
     (case map_of (zip ''ABCDEFGHIJKLMNOPQRSTUVWXYZ'' ''abcdefghijklmnopqrstuvwxyz'') c of
        None \<Rightarrow> c
      | Some d \<Rightarrow> d)"

definition upper_char :: "char \<Rightarrow> char" where
  "upper_char c =
     (case map_of (zip ''abcdefghijklmnopqrstuvwxyz'' ''ABCDEFGHIJKLMNOPQRSTUVWXYZ'') c of
        None \<Rightarrow> c
      | Some d \<Rightarrow> d)"

definition lower :: "string \<Rightarrow> string" where
  "lower s = map lower_char s"

definition upper :: "string \<Rightarrow> string" where
  "upper s = map upper_char s"

definition startswith :: "string \<Rightarrow> string \<Rightarrow> bool" where
  "startswith s p = (take (length p) s = p)"

definition endswith :: "string \<Rightarrow> string \<Rightarrow> bool" where
  "endswith s p = (length p \<le> length s \<and> drop (length s - length p) s = p)"

text \<open>\<^verbatim>\<open>sep.join(parts)\<close>.\<close>

fun join :: "string \<Rightarrow> string list \<Rightarrow> string" where
  "join sep [] = []"
| "join sep [x] = x"
| "join sep (x # y # ys) = x @ sep @ join sep (y # ys)"

text \<open>
  \<^verbatim>\<open>s.split(c)\<close> for a one-character separator: the pieces between the separators, in
  order; an input without the separator is one piece.
\<close>

fun split_on :: "char \<Rightarrow> string \<Rightarrow> string list" where
  "split_on c [] = [[]]"
| "split_on c (x # xs) =
     (if x = c then [] # split_on c xs
      else (case split_on c xs of
              [] \<Rightarrow> [[x]]
            | p # ps \<Rightarrow> (x # p) # ps))"

text \<open>
  \<^verbatim>\<open>str.splitlines()\<close>: a line ends at 0x0A, 0x0B, 0x0C, 0x0D, 0x1C, 0x1D, 0x1E or at
  the pair 0x0D 0x0A; the terminators are dropped and a terminator at the very end opens
  no further line.
\<close>

definition is_linebreak :: "char \<Rightarrow> bool" where
  "is_linebreak c =
     (c \<in> set [CHR 0x0A, CHR 0x0B, CHR 0x0C, CHR 0x0D, CHR 0x1C, CHR 0x1D, CHR 0x1E])"

fun splitlines_acc :: "string \<Rightarrow> string \<Rightarrow> string list" where
  "splitlines_acc cur [] = (if cur = [] then [] else [rev cur])"
| "splitlines_acc cur [c] =
     (if is_linebreak c then [rev cur] else [rev (c # cur)])"
| "splitlines_acc cur (c # d # rest) =
     (if c = CHR 0x0D \<and> d = CHR 0x0A then rev cur # splitlines_acc [] rest
      else if is_linebreak c then rev cur # splitlines_acc [] (d # rest)
      else splitlines_acc (c # cur) (d # rest))"

definition splitlines :: "string \<Rightarrow> string list" where
  "splitlines s = splitlines_acc [] s"

text \<open>\<^verbatim>\<open>str(n)\<close> for an integer.\<close>

fun show_nat :: "nat \<Rightarrow> string" where
  "show_nat n =
     (if n < 10 then [''0123456789'' ! n]
      else show_nat (n div 10) @ [''0123456789'' ! (n mod 10)])"

declare show_nat.simps [simp del]

definition show_int :: "int \<Rightarrow> string" where
  "show_int i = (if i < 0 then ''-'' @ show_nat (nat (- i)) else show_nat (nat i))"

text \<open>
  The newline, the single quote and the backslash as strings, and the UTF-8 bytes of the en
  dash and of the rightwards arrow that the session log entries contain.
\<close>

definition NL :: string where
  "NL = [CHR 0x0A]"

definition SQ :: string where
  "SQ = [CHR 0x27]"

definition BACKSLASH :: char where
  "BACKSLASH = CHR 0x5C"

definition EN_DASH :: string where
  "EN_DASH = [CHR 0xE2, CHR 0x80, CHR 0x93]"

definition ARROW :: string where
  "ARROW = [CHR 0xE2, CHR 0x86, CHR 0x92]"

section \<open>Paths\<close>

text \<open>
  Paths are strings: a path is \<^verbatim>\<open>str\<close> of the \<^verbatim>\<open>Path\<close> object. \<^verbatim>\<open>pathlib\<close> keeps a root
  and the components: the root is \<^verbatim>\<open>//\<close> for exactly two leading slashes, \<^verbatim>\<open>/\<close> for any
  other number of them and empty for a relative path; the components are the non-empty
  pieces between slashes other than a single dot. \<open>path_str\<close> is \<^verbatim>\<open>str\<close> of a root and
  components, and \<open>path_norm p\<close> is \<^verbatim>\<open>str(Path(p))\<close>.
\<close>

definition path_root :: "string \<Rightarrow> string" where
  "path_root p =
     (if startswith p ''//'' \<and> \<not> startswith p ''///'' then ''//''
      else if startswith p ''/'' then ''/''
      else [])"

definition path_parts :: "string \<Rightarrow> string list" where
  "path_parts p = filter (\<lambda>c. c \<noteq> [] \<and> c \<noteq> ''.'') (split_on CHR ''/'' p)"

definition path_str :: "string \<Rightarrow> string list \<Rightarrow> string" where
  "path_str root parts = (if root = [] \<and> parts = [] then ''.'' else root @ join ''/'' parts)"

definition path_norm :: "string \<Rightarrow> string" where
  "path_norm p = path_str (path_root p) (path_parts p)"

text \<open>
  \<open>path_join a b\<close> is \<^verbatim>\<open>a / b\<close>: an absolute \<open>b\<close> replaces \<open>a\<close>, and the result is kept as
  root and components, so a trailing slash, a doubled slash and a component \<^verbatim>\<open>.\<close> go,
  while \<^verbatim>\<open>..\<close> stays. \<open>path_name\<close> is \<^verbatim>\<open>Path(p).name\<close> and \<open>path_parent\<close> is
  \<^verbatim>\<open>Path(p).parent\<close>.
\<close>

definition path_join :: "string \<Rightarrow> string \<Rightarrow> string" where
  "path_join a b =
     path_norm (if startswith b ''/'' then b
                else if a = [] \<or> endswith a ''/'' then a @ b
                else a @ ''/'' @ b)"

definition path_name :: "string \<Rightarrow> string" where
  "path_name p = (if path_parts p = [] then [] else last (path_parts p))"


text \<open>
  \<^verbatim>\<open>Path(p).resolve()\<close> of an absolute path on a file system without symbolic links: each
  \<^verbatim>\<open>..\<close> takes the component before it away (none at the root), and the root is one slash.
\<close>

definition resolve :: "string \<Rightarrow> string" where
  "resolve p =
     ''/'' @ join ''/'' (fold (\<lambda>c acc. if c = ''..'' then butlast acc else acc @ [c])
                            (path_parts p) [])"

section \<open>Kickoff references\<close>

text \<open>
  \<^verbatim>\<open>_looks_like_path\<close>: the stripped reference holds a slash or ends in \<^verbatim>\<open>.md\<close> or
  \<^verbatim>\<open>.txt\<close>, and does not start with a hash.
\<close>

definition looks_like_path :: "string \<Rightarrow> bool" where
  "looks_like_path s0 =
     (let s = strip s0
      in (CHR ''/'' \<in> set s \<or> endswith s ''.md'' \<or> endswith s ''.txt'')
         \<and> \<not> startswith s ''#'')"

text \<open>
  What \<^verbatim>\<open>(repo_root / ref).resolve()\<close> names on disk: nothing, a file that
  \<^verbatim>\<open>read_text\<close> decodes, or an entry on which \<^verbatim>\<open>read_text\<close> raises (a directory,
  bytes that are not UTF-8).
\<close>

datatype node = Readable string | Unreadable

datatype error =
    OSError
  | KeyError string
  | RuntimeError string
  | CalledProcessError "string list"

text \<open>
  \<^verbatim>\<open>_load_kickoff_text\<close>; \<open>disk\<close> maps a reference to what its resolved path names.
\<close>

definition load_kickoff_text :: "(string \<Rightarrow> node option) \<Rightarrow> string \<Rightarrow> error + string" where
  "load_kickoff_text disk kickoff_ref =
     (let ref = strip kickoff_ref
      in if ref = [] then Inr []
         else if looks_like_path ref then
           (case disk ref of
              Some (Readable txt) \<Rightarrow> Inr txt
            | Some Unreadable \<Rightarrow> Inl OSError
            | None \<Rightarrow> Inr ref)
         else Inr ref)"

section \<open>The queue\<close>

text \<open>
  A task object of the queue file. Each field carries a value of the JSON type the queue
  schema gives it, so \<^verbatim>\<open>str(x)\<close> of a field is the field. \<open>None\<close> is a key that is
  missing or \<^verbatim>\<open>null\<close> (for \<^verbatim>\<open>id\<close>: a key that is missing). For \<^verbatim>\<open>order\<close> the three
  cases of \<^verbatim>\<open>_load_tasks\<close> are kept apart: no value, a value \<^verbatim>\<open>int()\<close> accepts, and
  a value on which \<^verbatim>\<open>int()\<close> raises. The queue file is the list of its task objects, which
  is what \<^verbatim>\<open>_queue_tasks\<close> returns for either container form.
\<close>

datatype order_field = OrderAbsent | OrderInt int | OrderInvalid

record raw_task =
  rt_id :: "string option"
  rt_order :: order_field
  rt_status :: "string option"
  rt_depends_on :: "string list"
  rt_kickoff_prompt :: "string option"
  rt_type :: "string option"
  rt_worktree :: "string option"
  rt_workstream_id :: "string option"
  rt_started_at :: "string option"
  rt_completed_at :: "string option"
  rt_blocked_at :: "string option"
  rt_blockers :: "string list option"
  rt_unblock_steps :: "string list option"

text \<open>\<^verbatim>\<open>x or d\<close> for an optional string: the default replaces a missing and an empty value.\<close>

definition str_or :: "string option \<Rightarrow> string \<Rightarrow> string" where
  "str_or x d = (case x of None \<Rightarrow> d | Some s \<Rightarrow> if s = [] then d else s)"

text \<open>\<^verbatim>\<open>str(t.get("id", "")).strip()\<close>, as \<^verbatim>\<open>_load_tasks\<close> and \<^verbatim>\<open>_update_task\<close> compute it.\<close>

definition raw_id :: "raw_task \<Rightarrow> string" where
  "raw_id t = strip (case rt_id t of None \<Rightarrow> [] | Some s \<Rightarrow> s)"

record task =
  t_id :: string
  t_index :: nat
  t_order :: int
  t_status :: string
  t_depends_on :: "string list"
  t_kickoff_ref :: string
  t_type :: string
  t_worktree :: string
  t_workstream_id :: string

text \<open>\<^verbatim>\<open>_derive_workstream_id\<close>.\<close>

definition derive_workstream_id :: "raw_task \<Rightarrow> string" where
  "derive_workstream_id t =
     (let ws = strip (str_or (rt_workstream_id t) [])
      in if ws \<noteq> [] then ws
         else let typ = lower (strip (str_or (rt_type t) []))
              in if typ = ''code'' then ''WS-CODE''
                 else if typ = ''test'' then ''WS-TEST''
                 else if typ = ''integration'' then ''WS-INT''
                 else ''WS-DEFAULT'')"

text \<open>\<^verbatim>\<open>_normalize_status\<close>.\<close>

definition normalize_status :: "string \<Rightarrow> string" where
  "normalize_status s =
     (let v = lower (strip s)
      in if v \<in> set [''todo'', ''pending''] then ''pending''
         else if v \<in> set [''in_progress'', ''in-progress''] then ''in_progress''
         else if v \<in> set [''done'', ''completed'', ''complete''] then ''completed''
         else if v \<in> set [''blocked''] then ''blocked''
         else if v \<in> set [''deferred''] then ''deferred''
         else if v = [] then ''pending'' else v)"

text \<open>The status \<^verbatim>\<open>_load_tasks\<close> gives a task object.\<close>

definition raw_status :: "raw_task \<Rightarrow> string" where
  "raw_status t = normalize_status (str_or (rt_status t) ''pending'')"

text \<open>
  The body of the loop of \<^verbatim>\<open>_load_tasks\<close> for a task object that has an id: the
  \<^verbatim>\<open>Task\<close> built from the object at position \<open>idx\<close>.
\<close>

definition make_task :: "nat \<Rightarrow> raw_task \<Rightarrow> task" where
  "make_task idx t =
     \<lparr> t_id = raw_id t,
       t_index = idx,
       t_order = (case rt_order t of
                    OrderAbsent \<Rightarrow> (int idx + 1) * 10
                  | OrderInt n \<Rightarrow> n
                  | OrderInvalid \<Rightarrow> (int idx + 1) * 10),
       t_status = raw_status t,
       t_depends_on = filter (\<lambda>d. strip d \<noteq> []) (rt_depends_on t),
       t_kickoff_ref = strip (str_or (rt_kickoff_prompt t) []),
       t_type = strip (str_or (rt_type t) []),
       t_worktree = strip (str_or (rt_worktree t) []),
       t_workstream_id = derive_workstream_id t \<rparr>"

text \<open>\<^verbatim>\<open>_load_tasks\<close>: objects without an id are skipped, the others keep their position.\<close>

definition load_tasks :: "raw_task list \<Rightarrow> task list" where
  "load_tasks payload =
     map (\<lambda>(idx, t). make_task idx t)
       (filter (\<lambda>(idx, t). raw_id t \<noteq> []) (enumerate 0 payload))"

text \<open>
  \<^verbatim>\<open>_update_task\<close>: the first task object whose stripped id is \<open>task_id\<close> is updated;
  \<^verbatim>\<open>KeyError\<close> when there is none. The three updates \<^verbatim>\<open>main\<close> applies follow.
\<close>

fun update_task :: "raw_task list \<Rightarrow> string \<Rightarrow> (raw_task \<Rightarrow> raw_task) \<Rightarrow> error + raw_task list" where
  "update_task [] task_id updates = Inl (KeyError task_id)"
| "update_task (t # ts) task_id updates =
     (if raw_id t = task_id then Inr (updates t # ts)
      else (case update_task ts task_id updates of
              Inl err \<Rightarrow> Inl err
            | Inr ts' \<Rightarrow> Inr (t # ts')))"

definition start_update :: "string \<Rightarrow> raw_task \<Rightarrow> raw_task" where
  "start_update now t = t\<lparr> rt_status := Some ''in_progress'', rt_started_at := Some now \<rparr>"

definition blocked_update :: "string \<Rightarrow> string list \<Rightarrow> string list \<Rightarrow> raw_task \<Rightarrow> raw_task" where
  "blocked_update now blockers unblock_steps t =
     t\<lparr> rt_status := Some ''blocked'', rt_blocked_at := Some now,
        rt_blockers := Some blockers, rt_unblock_steps := Some unblock_steps \<rparr>"

definition completed_update :: "string \<Rightarrow> raw_task \<Rightarrow> raw_task" where
  "completed_update now t = t\<lparr> rt_status := Some ''completed'', rt_completed_at := Some now \<rparr>"

section \<open>The scheduler\<close>

text \<open>
  \<^verbatim>\<open>_runnable_tasks\<close>. Python's \<^verbatim>\<open>sorted\<close> is stable, as is insertion sort by key.
\<close>

definition runnable_tasks :: "task list \<Rightarrow> string set \<Rightarrow> task list" where
  "runnable_tasks tasks done =
     sort_key t_order
       (filter (\<lambda>t. t_status t = ''pending'' \<and> list_all (\<lambda>dep. dep \<in> done) (t_depends_on t))
          tasks)"

text \<open>\<^verbatim>\<open>_active_workstreams\<close>: over every task object of the queue, with or without an id.\<close>

definition active_workstreams :: "raw_task list \<Rightarrow> string set" where
  "active_workstreams payload =
     set (map derive_workstream_id
            (filter (\<lambda>t. normalize_status (str_or (rt_status t) []) = ''in_progress'') payload))"

text \<open>\<^verbatim>\<open>_role_label\<close>.\<close>

definition role_label :: "string \<Rightarrow> string" where
  "role_label task_type =
     (let v = lower (strip task_type)
      in if v = ''code'' then ''Code''
         else if v = ''test'' then ''Test''
         else if v = ''integration'' then ''Integration''
         else ''Agent'')"

section \<open>Session log entries\<close>

text \<open>
  A file is the text \<^verbatim>\<open>read_text\<close> returns for it; \<open>None\<close> is a file that does not exist.
  \<^verbatim>\<open>_append_session_log\<close> yields the new text of the session log.
\<close>

definition append_session_log :: "string option \<Rightarrow> string \<Rightarrow> string" where
  "append_session_log session_log entry =
     (let existing = (case session_log of None \<Rightarrow> [] | Some txt \<Rightarrow> txt);
          existing' = (if existing \<noteq> [] \<and> \<not> endswith existing NL then existing @ NL
                       else existing)
      in existing' @ entry)"

text \<open>The entry \<^verbatim>\<open>_session_log_start\<close> appends; \<open>ts\<close> is the formatted time.\<close>

definition session_log_start :: "string \<Rightarrow> string \<Rightarrow> string \<Rightarrow> string \<Rightarrow> string \<Rightarrow> string \<Rightarrow> string" where
  "session_log_start ts task_id role base_branch kickoff_ref worktree =
     join NL
       [''## ['' @ ts @ ''] '' @ role @ '' Agent '' @ EN_DASH @ '' '' @ task_id @ '' ''
          @ EN_DASH @ '' START'',
        ''- Orchestrator: set `'' @ task_id @ ''` '' @ ARROW @ '' `in_progress` in `tasks.json`'',
        ''- Base branch: `'' @ base_branch @ ''`'',
        ''- Kickoff prompt: `'' @ kickoff_ref @ ''`'',
        (if worktree \<noteq> [] then ''- Worktree: `'' @ worktree @ ''`'' else ''- Worktree: N/A''),
        ''- Blockers: none'',
        []]"

text \<open>
  The pattern of \<^verbatim>\<open>_session_log_end\<close> is the raw string
  \<^verbatim>\<open>(?im)^-\\s*\\*\\*Blocker[s]?\\*\\*:\\s*(.*)$\<close>. In a raw string \<^verbatim>\<open>\\\<close> is two
  characters, which the pattern language reads as one literal backslash; so, at the start
  of a line, the pattern asks for: a dash; a backslash; any number of \<^verbatim>\<open>s\<close>; any number
  of backslashes (twice); \<^verbatim>\<open>Blocker\<close>; an optional \<^verbatim>\<open>s\<close>; any number of backslashes
  (twice); a colon; a backslash; any number of \<^verbatim>\<open>s\<close>; and the group, which is the rest
  of the line. Letters match in either case. Every repetition is followed by characters it
  cannot match itself, so the greedy match is the only one.
\<close>

definition eat :: "string \<Rightarrow> string \<Rightarrow> string option" where
  "eat lit s =
     (if length lit \<le> length s \<and> lower (take (length lit) s) = lower lit
      then Some (drop (length lit) s) else None)"

definition is_s :: "char \<Rightarrow> bool" where
  "is_s c = (c = CHR ''s'' \<or> c = CHR ''S'')"

definition is_backslash :: "char \<Rightarrow> bool" where
  "is_backslash c = (c = BACKSLASH)"

definition eat_optional_s :: "string \<Rightarrow> string" where
  "eat_optional_s s = (case s of [] \<Rightarrow> [] | c # cs \<Rightarrow> if is_s c then cs else s)"

definition blocker_match_line :: "string \<Rightarrow> string option" where
  "blocker_match_line line =
     (case eat ''-'' line of None \<Rightarrow> None | Some r1 \<Rightarrow>
      (case eat [BACKSLASH] r1 of None \<Rightarrow> None | Some r2 \<Rightarrow>
       (case eat ''Blocker''
               (dropWhile is_backslash (dropWhile is_backslash (dropWhile is_s r2))) of
          None \<Rightarrow> None
        | Some r3 \<Rightarrow>
          (case eat '':''
                  (dropWhile is_backslash (dropWhile is_backslash (eat_optional_s r3))) of
             None \<Rightarrow> None
           | Some r4 \<Rightarrow>
             (case eat [BACKSLASH] r4 of None \<Rightarrow> None | Some r5 \<Rightarrow>
                Some (dropWhile is_s r5))))))"

text \<open>
  \<^verbatim>\<open>re.search\<close> with the multi-line flag: the group of the first line, among the lines
  that 0x0A separates, on which the pattern matches.
\<close>

fun first_match :: "string list \<Rightarrow> string option" where
  "first_match [] = None"
| "first_match (l # ls) =
     (case blocker_match_line l of Some g \<Rightarrow> Some g | None \<Rightarrow> first_match ls)"

definition blocker_search :: "string \<Rightarrow> string option" where
  "blocker_search msg = first_match (split_on (CHR 0x0A) msg)"

text \<open>The \<^verbatim>\<open>blockers_line\<close> of \<^verbatim>\<open>_session_log_end\<close>.\<close>

definition blockers_line :: "string option \<Rightarrow> string" where
  "blockers_line last_message =
     (case last_message of
        None \<Rightarrow> ''- Blockers: none''
      | Some msg \<Rightarrow>
          (case blocker_search msg of
             None \<Rightarrow> ''- Blockers: none''
           | Some g \<Rightarrow>
               (let tail = strip g
                in if tail \<noteq> [] \<and> lower tail \<notin> set [''none'', ''<none>'']
                   then ''- Blockers: '' @ tail
                   else ''- Blockers: none'')))"

text \<open>
  The lines of the entry \<^verbatim>\<open>_session_log_end\<close> appends, and the entry; \<open>last_message\<close> is
  the file at \<open>last_message_path\<close>.
\<close>

definition session_log_end_lines ::
  "string \<Rightarrow> string \<Rightarrow> string \<Rightarrow> string \<Rightarrow> string \<Rightarrow> string option \<Rightarrow> string list \<Rightarrow> string list" where
  "session_log_end_lines ts task_id role worktree last_message_path last_message extra =
     (let snippet = (case last_message of
                       None \<Rightarrow> []
                     | Some msg \<Rightarrow> strip (join NL (take 40 (splitlines (strip msg)))))
      in [''## ['' @ ts @ ''] '' @ role @ '' Agent '' @ EN_DASH @ '' '' @ task_id @ '' ''
            @ EN_DASH @ '' END'',
          (if worktree \<noteq> [] then ''- Worktree: `'' @ worktree @ ''`'' else ''- Worktree: N/A''),
          ''- Worker output: `'' @ last_message_path @ ''`'']
         @ extra
         @ (if snippet \<noteq> []
            then [''- Worker summary (first ~40 lines):'', ''```text'', snippet, ''```'']
            else [])
         @ [blockers_line last_message, []])"

definition session_log_end ::
  "string \<Rightarrow> string \<Rightarrow> string \<Rightarrow> string \<Rightarrow> string \<Rightarrow> string option \<Rightarrow> string list \<Rightarrow> string" where
  "session_log_end ts task_id role worktree last_message_path last_message extra =
     join NL (session_log_end_lines ts task_id role worktree last_message_path last_message extra)"

section \<open>The worker prompt\<close>

text \<open>\<^verbatim>\<open>_make_prompt_text\<close>; \<open>wt\<close> is the worktree path, or the repository root.\<close>

definition make_prompt_text :: "string \<Rightarrow> string \<Rightarrow> string \<Rightarrow> string \<Rightarrow> string \<Rightarrow> string \<Rightarrow> string" where
  "make_prompt_text repo_root task_id wt base_branch kickoff_ref kickoff_text =
     join NL
       [''You are a coding agent executing exactly one task: '' @ task_id @ ''.'',
        ''Base repo: '' @ repo_root,
        ''Task worktree: '' @ wt,
        ''Base branch: '' @ base_branch,
        [],
        ''Hard rules:'',
        ''- Do not proceed to any other task IDs.'',
        ''- Do NOT edit feature docs, task tracking, or session logs:'',
        ''  - docs/project_management/next/**/tasks.json'',
        ''  - docs/project_management/next/**/session_log.md'',
        ''- Do NOT create/remove git worktrees; the orchestrator handles that.'',
        ''- Do NOT update task statuses; the orchestrator handles that.'',
        ''- Do NOT run `git checkout` / `git pull` or otherwise switch branches; the orchestrator already prepared the worktree on the task branch.'',
        ''- Work only in the provided worktree (git repo cwd).'',
        ''- Run the required commands listed under 'Commands (required)' in the kickoff prompt.'',
        ''- End with a concise report including: files changed, branch/worktree, commits, commands run + pass/fail, and any blockers.'',
        [],
        ''Kickoff prompt path: '' @ kickoff_ref,
        [],
        ''Kickoff prompt (verbatim):'',
        strip kickoff_text,
        []]"

text \<open>
  \<^verbatim>\<open>_tail_lines\<close>: the last \<open>n\<close> lines (all of them when \<open>n\<close> is 0, as the slice
  \<^verbatim>\<open>data[-0:]\<close> is the whole list), each followed by a newline; the empty text for a file
  that cannot be read.
\<close>

definition tail_lines :: "string option \<Rightarrow> nat \<Rightarrow> string" where
  "tail_lines file n =
     (case file of
        None \<Rightarrow> []
      | Some txt \<Rightarrow>
          (let data = splitlines txt;
               kept = (if n = 0 then data else drop (length data - n) data)
           in join NL kept @ (if data \<noteq> [] then NL else [])))"

text \<open>
  The \<^verbatim>\<open>done_info\<close> of a DONE sentinel: every line with an equals sign is cut at the
  first one, both sides are stripped, and a later line replaces an earlier one with the
  same key.
\<close>

definition done_info :: "string \<Rightarrow> string \<Rightarrow> string option" where
  "done_info txt =
     fold (\<lambda>line info.
             if CHR ''='' \<in> set line
             then info(strip (takeWhile (\<lambda>c. c \<noteq> CHR ''='') line)
                         \<mapsto> strip (tl (dropWhile (\<lambda>c. c \<noteq> CHR ''='') line)))
             else info)
       (splitlines txt) Map.empty"

text \<open>\<^verbatim>\<open>(done_info.get("status") or "").strip().lower()\<close> for a sentinel that may not exist.\<close>

definition done_status :: "string option \<Rightarrow> string" where
  "done_status sentinel =
     lower (strip (str_or (case sentinel of None \<Rightarrow> None | Some txt \<Rightarrow> done_info txt ''status'') []))"

section \<open>What the orchestrator reads and writes\<close>

text \<open>
  The flags of \<^verbatim>\<open>main\<close>. \<open>repo_root\<close> is the resolved repository root and \<open>queue\<close> the
  resolved path of the queue file relative to it, as \<^verbatim>\<open>relative_to(repo_root)\<close> gives it. \<open>id_regex\<close> is the compiled \<^verbatim>\<open>--id-regex\<close>, as the
  test \<^verbatim>\<open>id_re.search(x) is not None\<close>, and \<open>None\<close> for an empty flag. \<open>executable\<close> is
  \<^verbatim>\<open>sys.executable\<close>.
\<close>

record args =
  repo_root :: string
  queue :: string
  run_root :: string
  max_workers :: int
  per_workstream :: int
  watch_timeout_s :: int
  stop_on_blocked :: bool
  dry_run :: bool
  only_task_ids :: string
  id_regex :: "(string \<Rightarrow> bool) option"
  codex_cmd :: string
  executable :: string

definition run_root_path :: "args \<Rightarrow> string" where
  "run_root_path a = resolve (path_join (repo_root a) (run_root a))"

definition spawn_script :: "args \<Rightarrow> string" where
  "spawn_script a = resolve (path_join (path_join (repo_root a) ''scripts'') ''spawn_worker.py'')"


text \<open>The set \<^verbatim>\<open>only_ids\<close> of \<^verbatim>\<open>main\<close>.\<close>

definition only_ids :: "args \<Rightarrow> string set" where
  "only_ids a =
     (if only_task_ids a \<noteq> []
      then set (map strip (filter (\<lambda>x. strip x \<noteq> []) (split_on CHR '','' (only_task_ids a))))
      else {})"

text \<open>The condition of the comprehension that builds \<^verbatim>\<open>tasks\<close> from \<^verbatim>\<open>tasks_all\<close>.\<close>

definition in_scope :: "args \<Rightarrow> task \<Rightarrow> bool" where
  "in_scope a t =
     ((only_ids a = {} \<or> t_id t \<in> only_ids a)
      \<and> (case id_regex a of None \<Rightarrow> True | Some search \<Rightarrow> search (t_id t)))"

text \<open>
  The files and the repository. \<open>queue_file\<close> is the queue file, \<open>session_log\<close> the session
  log beside it, \<open>run_dirs\<close> and \<open>run_files\<close> the directories and files below the run
  root, and \<open>commands\<close> the commands that change the repository or start a process, in the
  order in which they were issued: \<^verbatim>\<open>git add\<close>, \<^verbatim>\<open>commit\<close>, \<^verbatim>\<open>worktree\<close>, \<^verbatim>\<open>checkout\<close>,
  \<^verbatim>\<open>merge\<close>, and the \<^verbatim>\<open>Popen\<close> of a worker.
\<close>

record world =
  queue_file :: "raw_task list"
  session_log :: "string option"
  run_dirs :: "string set"
  run_files :: "string \<Rightarrow> string option"
  commands :: "string list list"

text \<open>
  The variables of \<^verbatim>\<open>main\<close> that live across ticks, what it has printed, and the world.
  \<open>running\<close> holds the keys of the dictionary of that name, in insertion order.
\<close>

record state =
  wld :: world
  printed :: "string list"
  running :: "string list"
  task_to_worktree :: "string \<Rightarrow> string option"
  task_base_sha :: "string \<Rightarrow> string option"

text \<open>
  What a tick observes and cannot decide: the clock, the files outside the run root, the
  replies of git (return code and stripped standard output; a reply may depend on the
  commands issued so far), which workers \<^verbatim>\<open>poll()\<close> reports as exited, and what the
  workers write below the run root before the next tick.
\<close>

record env =
  utc_now :: string
  log_time :: string
  kickoff_disk :: "string \<Rightarrow> node option"
  path_exists :: "string list list \<Rightarrow> string \<Rightarrow> bool"
  git_reply :: "string list list \<Rightarrow> string list \<Rightarrow> int \<times> string"
  polled :: "string \<Rightarrow> bool"
  worker_files :: "(string \<Rightarrow> string option) \<Rightarrow> (string \<Rightarrow> string option)"

datatype outcome = Running | Exit int | Raised error

definition print_line :: "string \<Rightarrow> state \<Rightarrow> state" where
  "print_line l s = s\<lparr> printed := printed s @ [l] \<rparr>"

definition write_queue :: "raw_task list \<Rightarrow> state \<Rightarrow> state" where
  "write_queue payload s = s\<lparr> wld := (wld s)\<lparr> queue_file := payload \<rparr> \<rparr>"

definition write_session_log :: "string \<Rightarrow> state \<Rightarrow> state" where
  "write_session_log txt s = s\<lparr> wld := (wld s)\<lparr> session_log := Some txt \<rparr> \<rparr>"

definition write_file :: "string \<Rightarrow> string \<Rightarrow> state \<Rightarrow> state" where
  "write_file p txt s = s\<lparr> wld := (wld s)\<lparr> run_files := (run_files (wld s))(p \<mapsto> txt) \<rparr> \<rparr>"

definition unlink :: "string \<Rightarrow> state \<Rightarrow> state" where
  "unlink p s = s\<lparr> wld := (wld s)\<lparr> run_files := (run_files (wld s))(p := None) \<rparr> \<rparr>"

definition mkdir :: "string \<Rightarrow> state \<Rightarrow> state" where
  "mkdir p s = s\<lparr> wld := (wld s)\<lparr> run_dirs := insert p (run_dirs (wld s)) \<rparr> \<rparr>"

text \<open>
  \<^verbatim>\<open>_run\<close> of a command that only reads the repository (\<^verbatim>\<open>rev-parse\<close>, \<^verbatim>\<open>status\<close>,
  \<^verbatim>\<open>show-ref\<close>): the return code and the stripped output.
\<close>

definition query :: "env \<Rightarrow> state \<Rightarrow> string list \<Rightarrow> int \<times> string" where
  "query e s cmd = git_reply e (commands (wld s)) cmd"

definition query_checked :: "env \<Rightarrow> state \<Rightarrow> string list \<Rightarrow> error + string" where
  "query_checked e s cmd =
     (if fst (query e s cmd) \<noteq> 0 then Inl (CalledProcessError cmd) else Inr (snd (query e s cmd)))"

text \<open>
  \<^verbatim>\<open>_run\<close> of a command that changes the repository: the command is issued and its
  return code is the result; with \<^verbatim>\<open>check=True\<close> a return code other than 0 raises.
\<close>

definition issue :: "string list \<Rightarrow> state \<Rightarrow> state" where
  "issue cmd s = s\<lparr> wld := (wld s)\<lparr> commands := commands (wld s) @ [cmd] \<rparr> \<rparr>"

definition run_cmd :: "env \<Rightarrow> string list \<Rightarrow> state \<Rightarrow> int \<times> state" where
  "run_cmd e cmd s = (fst (query e s cmd), issue cmd s)"

definition run_checked :: "env \<Rightarrow> string list \<Rightarrow> state \<Rightarrow> error option \<times> state" where
  "run_checked e cmd s =
     (if fst (query e s cmd) \<noteq> 0 then (Some (CalledProcessError cmd), issue cmd s)
      else (None, issue cmd s))"

text \<open>
  \<^verbatim>\<open>_git_commit_paths\<close>; \<open>track\<close> holds the tracked paths relative to the repository
  root.
\<close>

definition git_commit_paths :: "env \<Rightarrow> string list \<Rightarrow> string \<Rightarrow> state \<Rightarrow> error option \<times> state" where
  "git_commit_paths e track message s =
     (case run_checked e ([''git'', ''add'', ''--''] @ track) s of
        (Some err, s1) \<Rightarrow> (Some err, s1)
      | (None, s1) \<Rightarrow>
          (case query_checked e s1 [''git'', ''status'', ''--porcelain=v1''] of
             Inl err \<Rightarrow> (Some err, s1)
           | Inr out \<Rightarrow>
               if out = [] then (None, s1)
               else run_checked e [''git'', ''commit'', ''-m'', message] s1))"

text \<open>\<^verbatim>\<open>_ensure_worktree\<close>: the path of the worktree and the name of its branch.\<close>

definition ensure_worktree ::
  "args \<Rightarrow> string \<Rightarrow> env \<Rightarrow> string \<Rightarrow> state \<Rightarrow> (error + string \<times> string) \<times> state" where
  "ensure_worktree a base_branch e worktree s =
     (let worktree_path = resolve (path_join (repo_root a) worktree);
          branch = path_name worktree
      in if path_exists e (commands (wld s)) worktree_path then
           (if \<not> path_exists e (commands (wld s)) (path_join worktree_path ''.git'')
            then (Inl (RuntimeError
                    (''Worktree path exists but is not a git worktree: '' @ worktree_path)), s)
            else (Inr (worktree_path, branch), s))
         else
           (let branch_exists =
                  (fst (query e s [''git'', ''show-ref'', ''--verify'', ''--quiet'',
                                   ''refs/heads/'' @ branch]) = 0);
                cmd = (if branch_exists
                       then [''git'', ''worktree'', ''add'', worktree_path, branch]
                       else [''git'', ''worktree'', ''add'', ''-b'', branch, worktree_path,
                             base_branch])
            in case run_checked e cmd s of
                 (Some err, s1) \<Rightarrow> (Inl err, s1)
               | (None, s1) \<Rightarrow> (Inr (worktree_path, branch), s1)))"

text \<open>\<^verbatim>\<open>_remove_worktree\<close>.\<close>

definition remove_worktree :: "args \<Rightarrow> env \<Rightarrow> string \<Rightarrow> state \<Rightarrow> state" where
  "remove_worktree a e worktree s =
     (let worktree_path = resolve (path_join (repo_root a) worktree)
      in if \<not> path_exists e (commands (wld s)) worktree_path then s
         else snd (run_cmd e [''git'', ''worktree'', ''remove'', ''--force'', worktree_path] s))"

text \<open>
  \<^verbatim>\<open>_fast_forward_merge\<close>, with the handler of its caller: the return code of the command
  that failed, if one did.
\<close>

definition fast_forward_merge :: "env \<Rightarrow> string \<Rightarrow> string \<Rightarrow> state \<Rightarrow> int option \<times> state" where
  "fast_forward_merge e base_branch integration_branch s =
     (case run_cmd e [''git'', ''checkout'', base_branch] s of
        (rc1, s1) \<Rightarrow>
          if rc1 \<noteq> 0 then (Some rc1, s1)
          else (case run_cmd e [''git'', ''merge'', ''--ff-only'', integration_branch] s1 of
                  (rc2, s2) \<Rightarrow> if rc2 \<noteq> 0 then (Some rc2, s2) else (None, s2)))"

text \<open>The test \<^verbatim>\<open>wt and wt.strip().upper() != "N/A"\<close>.\<close>

definition real_worktree :: "string \<Rightarrow> bool" where
  "real_worktree wt = (wt \<noteq> [] \<and> upper (strip wt) \<noteq> ''N/A'')"

section \<open>One tick of the event loop\<close>

text \<open>
  The paths below \<^verbatim>\<open>run_root / task_id\<close>.
\<close>

definition run_dir :: "args \<Rightarrow> string \<Rightarrow> string" where
  "run_dir a task_id = path_join (run_root_path a) task_id"

definition done_path :: "args \<Rightarrow> string \<Rightarrow> string" where
  "done_path a task_id = path_join (run_dir a task_id) (task_id @ ''.done'')"

definition log_path :: "args \<Rightarrow> string \<Rightarrow> string" where
  "log_path a task_id = path_join (run_dir a task_id) ''worker.log''"

definition failure_path :: "args \<Rightarrow> string \<Rightarrow> string" where
  "failure_path a task_id = path_join (run_dir a task_id) ''failure.md''"

definition last_message_path :: "args \<Rightarrow> string \<Rightarrow> string" where
  "last_message_path a task_id = path_join (run_dir a task_id) ''last_message.md''"

definition prompt_path :: "args \<Rightarrow> string \<Rightarrow> string" where
  "prompt_path a task_id = path_join (run_dir a task_id) ''prompt.md''"

definition base_sha_path :: "args \<Rightarrow> string \<Rightarrow> string" where
  "base_sha_path a task_id = path_join (run_dir a task_id) ''base_sha.txt''"

subsection \<open>The dry-run preview\<close>

text \<open>The loop that builds \<^verbatim>\<open>planned\<close>.\<close>

fun plan :: "args \<Rightarrow> task list \<Rightarrow> string set \<Rightarrow> task list \<Rightarrow> task list" where
  "plan a [] active_streams planned = planned"
| "plan a (t # ts) active_streams planned =
     (if int (length planned) \<ge> max_workers a then planned
      else if per_workstream a > 0 \<and> t_workstream_id t \<in> active_streams
      then plan a ts active_streams planned
      else plan a ts (insert (t_workstream_id t) active_streams) (planned @ [t]))"

definition planned_line :: "args \<Rightarrow> task \<Rightarrow> string" where
  "planned_line a t =
     ''DRY RUN: would spawn '' @ t_id t @ '' ('' @ t_workstream_id t @ '') in ''
       @ (if real_worktree (t_worktree t) then path_join (repo_root a) (t_worktree t)
          else repo_root a)"

subsection \<open>Admission\<close>

text \<open>
  Lines 505 to 515: the worktree of an admitted task is created and its base SHA recorded.
  The result is \<^verbatim>\<open>worktree_path\<close>.
\<close>

definition prepare_worktree ::
  "args \<Rightarrow> string \<Rightarrow> env \<Rightarrow> task \<Rightarrow> state \<Rightarrow> (error + string option) \<times> state" where
  "prepare_worktree a base_branch e t s =
     (if real_worktree (t_worktree t) then
        (case ensure_worktree a base_branch e (t_worktree t) s of
           (Inl err, s1) \<Rightarrow> (Inl err, s1)
         | (Inr (worktree_path, worktree_branch), s1) \<Rightarrow>
             (let s2 = s1\<lparr> task_to_worktree := (task_to_worktree s1)(t_id t \<mapsto> t_worktree t) \<rparr>
              in if worktree_branch \<noteq> [] then
                   (case query_checked e s2 [''git'', ''rev-parse'', worktree_branch] of
                      Inl err \<Rightarrow> (Inl err, s2)
                    | Inr sha \<Rightarrow>
                        (Inr (Some worktree_path),
                         write_file (base_sha_path a (t_id t)) (sha @ NL)
                           (s2\<lparr> task_base_sha := (task_base_sha s2)(t_id t \<mapsto> sha) \<rparr>)))
                 else (Inr (Some worktree_path), s2)))
      else (Inr None, s))"

text \<open>The command line of the worker's supervisor.\<close>

definition spawn_cmd :: "args \<Rightarrow> task \<Rightarrow> string option \<Rightarrow> string list" where
  "spawn_cmd a t worktree_path =
     [executable a, spawn_script a,
      ''--repo-root'', (case worktree_path of Some p \<Rightarrow> p | None \<Rightarrow> repo_root a),
      ''--task-id'', t_id t,
      ''--run-dir'', run_dir a (t_id t),
      ''--codex-cmd'', codex_cmd a]"

text \<open>
  Lines 488 to 501, the docs start: the task is set to \<^verbatim>\<open>in_progress\<close>, the START entry
  is appended when there is a session log, the queue is written, and both are committed.
\<close>

definition docs_start ::
  "args \<Rightarrow> string \<Rightarrow> string list \<Rightarrow> env \<Rightarrow> task \<Rightarrow> state \<Rightarrow> error option \<times> state" where
  "docs_start a base_branch track e t s =
     (case update_task (queue_file (wld s)) (t_id t) (start_update (utc_now e)) of
        Inl err \<Rightarrow> (Some err, s)
      | Inr payload \<Rightarrow>
          (let s2 = (if session_log (wld s) \<noteq> None
                     then write_session_log
                            (append_session_log (session_log (wld s))
                               (session_log_start (log_time e) (t_id t) (role_label (t_type t))
                                  base_branch (t_kickoff_ref t)
                                  (if real_worktree (t_worktree t) then t_worktree t else [])))
                            s
                     else s);
               s3 = write_queue payload s2
           in if \<not> dry_run a
              then git_commit_paths e track (''docs: start '' @ t_id t) s3
              else (None, s3)))"

text \<open>
  Lines 503 to 547: the worktree, the prompt file, and the worker's supervisor, whose task
  id enters \<^verbatim>\<open>running\<close>.
\<close>

definition spawn_worker ::
  "args \<Rightarrow> string \<Rightarrow> env \<Rightarrow> task \<Rightarrow> string \<Rightarrow> state \<Rightarrow> error option \<times> state" where
  "spawn_worker a base_branch e t kickoff_text s =
     (case prepare_worktree a base_branch e t s of
        (Inl err, s5) \<Rightarrow> (Some err, s5)
      | (Inr worktree_path, s5) \<Rightarrow>
          (let s6 = write_file (prompt_path a (t_id t))
                      (make_prompt_text (repo_root a) (t_id t)
                         (case worktree_path of Some p \<Rightarrow> p | None \<Rightarrow> repo_root a)
                         base_branch (t_kickoff_ref t) kickoff_text)
                      s5
           in if dry_run a
              then (None,
                    print_line
                      (''DRY RUN: would spawn '' @ t_id t @ '' ('' @ t_workstream_id t
                         @ '') in ''
                         @ (case worktree_path of Some p \<Rightarrow> p | None \<Rightarrow> repo_root a))
                      s6)
              else (None,
                    (issue (spawn_cmd a t worktree_path) s6)
                      \<lparr> running := running s6 @ [t_id t] \<rparr>)))"

text \<open>
  The body of the admission loop below its three guards (lines 475 to 547). The result
  tells whether an exception ended it.
\<close>

definition admit_one ::
  "args \<Rightarrow> string \<Rightarrow> string list \<Rightarrow> env \<Rightarrow> task \<Rightarrow> state \<Rightarrow> error option \<times> state" where
  "admit_one a base_branch track e t s =
     (let s1 = unlink (done_path a (t_id t)) (mkdir (run_dir a (t_id t)) s)
      in case load_kickoff_text (kickoff_disk e) (t_kickoff_ref t) of
           Inl err \<Rightarrow> (Some err, s1)
         | Inr kickoff_text \<Rightarrow>
             (case docs_start a base_branch track e t s1 of
                (Some err, s4) \<Rightarrow> (Some err, s4)
              | (None, s4) \<Rightarrow> spawn_worker a base_branch e t kickoff_text s4))"

text \<open>
  The admission loop (lines 467 to 547) over the ready tasks that are left. Beside the
  first exception, if any, and the state, the result lists the tasks that passed the three
  guards, in order; \<^verbatim>\<open>spawned_any\<close> is true when a task passed them outside a dry run.
\<close>

fun admit_loop ::
  "args \<Rightarrow> string \<Rightarrow> string list \<Rightarrow> env \<Rightarrow> task list \<Rightarrow> string set \<Rightarrow> state
     \<Rightarrow> (error option \<times> task list) \<times> state" where
  "admit_loop a base_branch track e [] active_streams s = ((None, []), s)"
| "admit_loop a base_branch track e (t # ts) active_streams s =
     (if t_id t \<in> set (running s) then admit_loop a base_branch track e ts active_streams s
      else if int (length (running s)) \<ge> max_workers a then ((None, []), s)
      else if per_workstream a > 0 \<and> t_workstream_id t \<in> active_streams
      then admit_loop a base_branch track e ts active_streams s
      else (case admit_one a base_branch track e t s of
              (Some err, s1) \<Rightarrow> ((Some err, [t]), s1)
            | (None, s1) \<Rightarrow>
                (case admit_loop a base_branch track e ts
                        (insert (t_workstream_id t) active_streams) s1 of
                   ((r, admitted), s2) \<Rightarrow> ((r, t # admitted), s2))))"

subsection \<open>Completion\<close>

text \<open>The text written to \<^verbatim>\<open>failure.md\<close>.\<close>

definition failure_text :: "string \<Rightarrow> string \<Rightarrow> string" where
  "failure_text now tail =
     ''# Worker exited without DONE'' @ NL @ NL @ ''finished_at: '' @ now @ NL @ NL
       @ ''## Last 200 log lines'' @ NL @ NL @ ''```text'' @ NL @ tail @ ''```'' @ NL"

text \<open>
  The body of the loop over the running tasks (lines 554 to 581): whether the task is
  finished.
\<close>

definition detect_one :: "args \<Rightarrow> env \<Rightarrow> string \<Rightarrow> state \<Rightarrow> (error + bool) \<times> state" where
  "detect_one a e task_id s =
     (if run_files (wld s) (done_path a task_id) \<noteq> None then (Inr True, s)
      else if polled e task_id \<and> run_files (wld s) (done_path a task_id) = None then
        (let tail = tail_lines (run_files (wld s) (log_path a task_id)) 200;
             s1 = write_file (failure_path a task_id) (failure_text (utc_now e) tail) s
         in case update_task (queue_file (wld s1)) task_id
                   (blocked_update (utc_now e)
                      [''Worker exited without writing DONE sentinel.'']
                      [''Inspect '' @ log_path a task_id,
                       ''Inspect '' @ failure_path a task_id,
                       ''Re-run task with revised prompt.'']) of
              Inl err \<Rightarrow> (Inl err, s1)
            | Inr payload \<Rightarrow> (Inr True, write_queue payload s1))
      else (Inr False, s))"

fun detect_loop ::
  "args \<Rightarrow> env \<Rightarrow> string list \<Rightarrow> state \<Rightarrow> (error + string list) \<times> state" where
  "detect_loop a e [] s = (Inr [], s)"
| "detect_loop a e (task_id # task_ids) s =
     (case detect_one a e task_id s of
        (Inl err, s1) \<Rightarrow> (Inl err, s1)
      | (Inr fin, s1) \<Rightarrow>
          (case detect_loop a e task_ids s1 of
             (Inl err, s2) \<Rightarrow> (Inl err, s2)
           | (Inr finished, s2) \<Rightarrow> (Inr (if fin then task_id # finished else finished), s2)))"

text \<open>
  The three branches that mark a finished task blocked have one shape: the update, the
  queue file, the END entry of the session log, the docs commit.
\<close>

definition append_end_entry ::
  "args \<Rightarrow> env \<Rightarrow> string \<Rightarrow> string \<Rightarrow> string \<Rightarrow> string list \<Rightarrow> state \<Rightarrow> state" where
  "append_end_entry a e task_id role wt extra s =
     (if session_log (wld s) \<noteq> None
      then write_session_log
             (append_session_log (session_log (wld s))
                (session_log_end (log_time e) task_id role wt (last_message_path a task_id)
                   (run_files (wld s) (last_message_path a task_id)) extra))
             s
      else s)"

definition finish_blocked ::
  "args \<Rightarrow> string list \<Rightarrow> env \<Rightarrow> string \<Rightarrow> string \<Rightarrow> string \<Rightarrow> string list \<Rightarrow> string list
     \<Rightarrow> string list \<Rightarrow> state \<Rightarrow> error option \<times> state" where
  "finish_blocked a track e task_id role wt blockers unblock_steps extra s =
     (case update_task (queue_file (wld s)) task_id
             (blocked_update (utc_now e) blockers unblock_steps) of
        Inl err \<Rightarrow> (Some err, s)
      | Inr payload \<Rightarrow>
          git_commit_paths e track (''docs: finish '' @ task_id @ '' (blocked)'')
            (append_end_entry a e task_id role wt extra (write_queue payload s)))"

text \<open>Lines 698 to 714: the task is marked completed and its worktree removed.\<close>

definition finish_completed ::
  "args \<Rightarrow> string list \<Rightarrow> env \<Rightarrow> string \<Rightarrow> string \<Rightarrow> string \<Rightarrow> string list \<Rightarrow> state
     \<Rightarrow> error option \<times> state" where
  "finish_completed a track e task_id role wt extra s =
     (case update_task (queue_file (wld s)) task_id (completed_update (utc_now e)) of
        Inl err \<Rightarrow> (Some err, s)
      | Inr payload \<Rightarrow>
          (case git_commit_paths e track (''docs: finish '' @ task_id)
                  (write_queue payload (append_end_entry a e task_id role wt extra s)) of
             (Some err, s1) \<Rightarrow> (Some err, s1)
           | (None, s1) \<Rightarrow> (None, if wt \<noteq> [] then remove_worktree a e wt s1 else s1)))"

text \<open>
  \<^verbatim>\<open>task_base_sha.get(task_id) or (run_dir / "base_sha.txt").read_text().strip()\<close>: the
  file is read when no SHA is recorded, and reading a file that does not exist raises.
\<close>

definition recorded_base_sha :: "args \<Rightarrow> string \<Rightarrow> state \<Rightarrow> error + string" where
  "recorded_base_sha a task_id s =
     (if str_or (task_base_sha s task_id) [] \<noteq> [] then Inr (str_or (task_base_sha s task_id) [])
      else (case run_files (wld s) (base_sha_path a task_id) of
              None \<Rightarrow> Inl OSError
            | Some txt \<Rightarrow> Inr (strip txt)))"

text \<open>Lines 667 to 714: the fast-forward merge of an integration task, then completion.\<close>

definition finish_success ::
  "args \<Rightarrow> string \<Rightarrow> string list \<Rightarrow> env \<Rightarrow> string \<Rightarrow> task option \<Rightarrow> string \<Rightarrow> string
     \<Rightarrow> state \<Rightarrow> error option \<times> state" where
  "finish_success a base_branch track e task_id this role wt s =
     (if (case this of None \<Rightarrow> False | Some t \<Rightarrow> lower (strip (t_type t)) = ''integration'')
         \<and> wt \<noteq> [] then
        (case fast_forward_merge e base_branch (path_name wt) s of
           (Some rc, s1) \<Rightarrow>
             finish_blocked a track e task_id role wt
               [''Failed ff-merge '' @ path_name wt @ '' into '' @ base_branch @ '': rc=''
                  @ show_int rc]
               [''Inspect git history'', ''Resolve merge/rebase, then rerun integration task.'']
               [''- Orchestrator: marked task blocked (ff-merge failed: `'' @ path_name wt
                  @ ''` '' @ ARROW @ '' `'' @ base_branch @ ''`)'']
               s1
         | (None, s1) \<Rightarrow>
             finish_completed a track e task_id role wt
               [''- Orchestrator: fast-forward merged `'' @ path_name wt @ ''` '' @ ARROW
                  @ '' `'' @ base_branch @ ''`'']
               s1)
      else finish_completed a track e task_id role wt [] s)"

text \<open>The body of the loop over the finished tasks (lines 584 to 714).\<close>

definition finish_one ::
  "args \<Rightarrow> string \<Rightarrow> string list \<Rightarrow> env \<Rightarrow> string \<Rightarrow> state \<Rightarrow> error option \<times> state" where
  "finish_one a base_branch track e task_id s0 =
     (let s = s0\<lparr> running := removeAll task_id (running s0) \<rparr>;
          this = find (\<lambda>t. t_id t = task_id) (load_tasks (queue_file (wld s)));
          role = role_label (case this of None \<Rightarrow> [] | Some t \<Rightarrow> t_type t);
          wt0 = (case task_to_worktree s task_id of
                   Some w \<Rightarrow> w
                 | None \<Rightarrow> (case this of None \<Rightarrow> [] | Some t \<Rightarrow> t_worktree t));
          wt = (if real_worktree wt0 then wt0 else []);
          status = done_status (run_files (wld s) (done_path a task_id))
      in if status \<noteq> ''success'' then
           finish_blocked a track e task_id role wt
             [''Worker status='' @ (if status = [] then ''unknown'' else status)
                @ '' (see .runs).'']
             [''Inspect '' @ log_path a task_id, ''Inspect '' @ done_path a task_id,
              ''Adjust prompt and rerun.'']
             [''- Orchestrator: marked task blocked (worker status=''
                @ (if status = [] then ''unknown'' else status) @ '')'']
             s
         else if this \<noteq> None \<and> wt \<noteq> [] then
           (case recorded_base_sha a task_id s of
              Inl err \<Rightarrow> (Some err, s)
            | Inr base_sha \<Rightarrow>
                (let branch_sha = snd (query e s [''git'', ''rev-parse'', path_name wt])
                 in if branch_sha = [] \<or> branch_sha = base_sha then
                      finish_blocked a track e task_id role wt
                        [''No commit produced on branch '' @ SQ @ path_name wt @ SQ
                           @ '' (likely commit failed).'']
                        [''Inspect '' @ last_message_path a task_id,
                         ''Inspect '' @ log_path a task_id,
                         ''Re-run the task with a less-restrictive codex sandbox.'']
                        [''- Orchestrator: marked task blocked (no commit produced)'']
                        s
                    else finish_success a base_branch track e task_id this role wt s))
         else finish_success a base_branch track e task_id this role wt s)"

fun finish_loop ::
  "args \<Rightarrow> string \<Rightarrow> string list \<Rightarrow> env \<Rightarrow> string list \<Rightarrow> state \<Rightarrow> error option \<times> state" where
  "finish_loop a base_branch track e [] s = (None, s)"
| "finish_loop a base_branch track e (task_id # task_ids) s =
     (case finish_one a base_branch track e task_id s of
        (Some err, s1) \<Rightarrow> (Some err, s1)
      | (None, s1) \<Rightarrow> finish_loop a base_branch track e task_ids s1)"

subsection \<open>The tick\<close>

text \<open>
  The \<^verbatim>\<open>blocked\<close> list of line 431.
\<close>

definition blocked_tasks :: "args \<Rightarrow> task list \<Rightarrow> task list" where
  "blocked_tasks a tasks_all =
     filter (\<lambda>t. t_status t = ''blocked'' \<and> (only_ids a = {} \<or> t_id t \<in> only_ids a)) tasks_all"

text \<open>The \<^verbatim>\<open>done\<close> set of line 430 and the \<^verbatim>\<open>runnable\<close> list of line 436.\<close>

definition done_ids :: "task list \<Rightarrow> string set" where
  "done_ids tasks_all = set (map t_id (filter (\<lambda>t. t_status t = ''completed'') tasks_all))"

definition ready :: "args \<Rightarrow> raw_task list \<Rightarrow> task list" where
  "ready a payload =
     runnable_tasks (filter (in_scope a) (load_tasks payload)) (done_ids (load_tasks payload))"

text \<open>
  The body of \<^verbatim>\<open>while True\<close> (lines 421 to 714). \<open>Running\<close> is the end of the body, after
  which the loop goes round; the wait of \<^verbatim>\<open>_file_watch_once\<close> changes nothing that the
  orchestrator owns.
\<close>

definition tick :: "args \<Rightarrow> string \<Rightarrow> string list \<Rightarrow> env \<Rightarrow> state \<Rightarrow> outcome \<times> state" where
  "tick a base_branch track e s =
     (let payload = queue_file (wld s);
          blocked = blocked_tasks a (load_tasks payload);
          runnable = ready a payload
      in if blocked \<noteq> [] \<and> stop_on_blocked a then
           (Exit 1, print_line (''STOP: '' @ show_nat (length blocked) @ '' blocked task(s).'') s)
         else if dry_run a then
           (let planned = plan a runnable (active_workstreams payload) []
            in if planned = []
               then (Exit 0, print_line ''DRY RUN: no runnable tasks (within scope).'' s)
               else (Exit 0, fold (\<lambda>t. print_line (planned_line a t)) planned s))
         else if runnable = [] \<and> running s = [] then
           (Exit 0,
            print_line ''DONE: no runnable tasks and no running workers (within scope).'' s)
         else
           (case admit_loop a base_branch track e runnable (active_workstreams payload) s of
              ((Some err, admitted), s1) \<Rightarrow> (Raised err, s1)
            | ((None, admitted), s1) \<Rightarrow>
                (case detect_loop a e (running s1) s1 of
                   (Inl err, s2) \<Rightarrow> (Raised err, s2)
                 | (Inr finished, s2) \<Rightarrow>
                     (case finish_loop a base_branch track e finished s2 of
                        (Some err, s3) \<Rightarrow> (Raised err, s3)
                      | (None, s3) \<Rightarrow> (Running, s3)))))"

section \<open>The run\<close>

text \<open>
  The loop of \<^verbatim>\<open>main\<close>: one observation of the environment for each tick; between two
  ticks the workers write below the run root. When the observations are used up the loop
  is still going (\<open>Running\<close>).
\<close>

fun main_loop ::
  "args \<Rightarrow> string \<Rightarrow> string list \<Rightarrow> env list \<Rightarrow> state \<Rightarrow> outcome \<times> state" where
  "main_loop a base_branch track [] s = (Running, s)"
| "main_loop a base_branch track (e # es) s =
     (case tick a base_branch track e s of
        (Running, s1) \<Rightarrow>
          main_loop a base_branch track es
            (s1\<lparr> wld := (wld s1)\<lparr> run_files := worker_files e (run_files (wld s1)) \<rparr> \<rparr>)
      | (out, s1) \<Rightarrow> (out, s1))"

text \<open>
  \<^verbatim>\<open>main\<close>, from a world and the observations \<open>e0\<close> made before the loop and \<open>es\<close> made
  tick by tick.
\<close>

definition initial :: "world \<Rightarrow> state" where
  "initial w =
     \<lparr> wld = w, printed = [], running = [], task_to_worktree = Map.empty,
       task_base_sha = Map.empty \<rparr>"


section \<open>How a tick changes the queue\<close>

text \<open>
  \<open>changes_only T q q'\<close>: the queue \<open>q'\<close> has the task objects of \<open>q\<close> at the same positions and
  with the same ids, and differs from it only in objects whose id is in \<open>T\<close>.
  \<open>keeps q q'\<close>: every completed object of \<open>q\<close> is the same in \<open>q'\<close>.
  \<open>not_completed q task_id\<close>: no object of \<open>q\<close> with this id is completed.
\<close>

definition changes_only :: "string set \<Rightarrow> raw_task list \<Rightarrow> raw_task list \<Rightarrow> bool" where
  "changes_only T q q' =
     (length q' = length q
      \<and> (\<forall>i < length q. raw_id (q' ! i) = raw_id (q ! i)
                        \<and> (q' ! i = q ! i \<or> raw_id (q ! i) \<in> T)))"

definition keeps :: "raw_task list \<Rightarrow> raw_task list \<Rightarrow> bool" where
  "keeps q q' =
     (length q' = length q
      \<and> (\<forall>i < length q. raw_status (q ! i) \<noteq> ''completed'' \<or> q' ! i = q ! i))"

definition not_completed :: "raw_task list \<Rightarrow> string \<Rightarrow> bool" where
  "not_completed q task_id =
     list_all (\<lambda>r. raw_id r \<noteq> task_id \<or> raw_status r \<noteq> ''completed'') q"

text \<open>
  \<open>patched task_id q q'\<close>: nothing, or one successful \<^verbatim>\<open>_update_task\<close> with this id and an
  update that keeps the id; \<open>patched_open\<close>: moreover the update does not complete the task.
\<close>

definition patched :: "string \<Rightarrow> raw_task list \<Rightarrow> raw_task list \<Rightarrow> bool" where
  "patched task_id q q' =
     (q' = q \<or> (\<exists>upd. (\<forall>r. raw_id (upd r) = raw_id r) \<and> update_task q task_id upd = Inr q'))"

definition patched_open :: "string \<Rightarrow> raw_task list \<Rightarrow> raw_task list \<Rightarrow> bool" where
  "patched_open task_id q q' =
     (q' = q \<or> (\<exists>upd. (\<forall>r. raw_id (upd r) = raw_id r)
                      \<and> (\<forall>r. raw_status (upd r) \<noteq> ''completed'')
                      \<and> update_task q task_id upd = Inr q'))"

text \<open>
  \<open>open_phase T q q'\<close> sums up a run of updates that complete no task and address ids of
  \<open>T\<close> only.
\<close>

definition open_phase :: "string set \<Rightarrow> raw_task list \<Rightarrow> raw_task list \<Rightarrow> bool" where
  "open_phase T q q' =
     (changes_only T q q'
      \<and> (\<forall>x. not_completed q x \<longrightarrow> not_completed q' x)
      \<and> ((\<forall>x \<in> T. not_completed q x) \<longrightarrow> keeps q q'))"

text \<open>
  \<open>distinct_ids q\<close>: no two task objects of \<open>q\<close> that have an id share it. \<open>settled s\<close>:
  the running map holds each id once, holds no empty id, and holds no id of a completed
  object of the queue.
\<close>

definition distinct_ids :: "raw_task list \<Rightarrow> bool" where
  "distinct_ids q = distinct (filter (\<lambda>x. x \<noteq> []) (map raw_id q))"

definition settled :: "state \<Rightarrow> bool" where
  "settled s =
     (distinct (running s) \<and> [] \<notin> set (running s)
      \<and> list_all (not_completed (queue_file (wld s))) (running s))"

section \<open>Concrete inputs\<close>

text \<open>
  A task object with no key set, and one with an id and a status; the flags at values
  close to their defaults; an environment in which every path exists, every git command
  succeeds and prints \<^verbatim>\<open>sha\<close>, no worker has exited and none writes; a world with a queue
  file, no session log, an empty run root and no command issued.
\<close>

definition no_task :: raw_task where
  "no_task =
     \<lparr> rt_id = None, rt_order = OrderAbsent, rt_status = None, rt_depends_on = [],
       rt_kickoff_prompt = None, rt_type = None, rt_worktree = None, rt_workstream_id = None,
       rt_started_at = None, rt_completed_at = None, rt_blocked_at = None, rt_blockers = None,
       rt_unblock_steps = None \<rparr>"

definition obj :: "string \<Rightarrow> string \<Rightarrow> raw_task" where
  "obj task_id status = no_task\<lparr> rt_id := Some task_id, rt_status := Some status \<rparr>"

definition args0 :: args where
  "args0 =
     \<lparr> repo_root = ''/r'', queue = ''q.json'', run_root = ''.runs'', max_workers = 2,
       per_workstream = 1, watch_timeout_s = 600, stop_on_blocked = False, dry_run = False,
       only_task_ids = [], id_regex = None, codex_cmd = ''codex'', executable = ''python'' \<rparr>"

definition env0 :: env where
  "env0 =
     \<lparr> utc_now = ''T'', log_time = ''L'', kickoff_disk = (\<lambda>p. None),
       path_exists = (\<lambda>cmds p. True), git_reply = (\<lambda>cmds cmd. (0, ''sha'')),
       polled = (\<lambda>task_id. False), worker_files = (\<lambda>files. files) \<rparr>"

definition world0 :: "raw_task list \<Rightarrow> world" where
  "world0 payload =
     \<lparr> queue_file = payload, session_log = None, run_dirs = {}, run_files = Map.empty,
       commands = [] \<rparr>"

text \<open>The search of the pattern \<^verbatim>\<open>^B$\<close>.\<close>

definition only_B :: "string \<Rightarrow> bool" where
  "only_B x = (x = ''B'')"

text \<open>
  Three ready tasks in two workstreams, and two ready tasks that share an id.
\<close>

definition obj_ws :: "string \<Rightarrow> string \<Rightarrow> string \<Rightarrow> raw_task" where
  "obj_ws task_id status ws = (obj task_id status)\<lparr> rt_workstream_id := Some ws \<rparr>"

definition queue_xxy :: "raw_task list" where
  "queue_xxy = [obj_ws ''A'' ''pending'' ''X'', obj_ws ''B'' ''pending'' ''X'',
                obj_ws ''C'' ''pending'' ''Y'']"

definition queue_aa :: "raw_task list" where
  "queue_aa = [obj ''A'' ''pending'', obj ''A'' ''pending'']"

text \<open>
  A task in a worktree whose worker has written a DONE sentinel with \<^verbatim>\<open>status=success\<close>,
  while the branch is still at the recorded base SHA (the environment prints \<^verbatim>\<open>sha\<close> for
  every \<^verbatim>\<open>rev-parse\<close>).
\<close>

definition task_wt :: raw_task where
  "task_wt = (obj ''A'' ''in_progress'')\<lparr> rt_worktree := Some ''work/A'' \<rparr>"

definition state_done :: state where
  "state_done =
     (initial ((world0 [task_wt])\<lparr> run_files := [''/r/.runs/A/A.done'' \<mapsto> ''status=success''] \<rparr>))
       \<lparr> running := [''A''], task_to_worktree := [''A'' \<mapsto> ''work/A''],
         task_base_sha := [''A'' \<mapsto> ''sha''] \<rparr>"

text \<open>
  A running task whose supervisor has exited without a DONE sentinel, leaving a log of two
  lines.
\<close>

definition env_exited :: env where
  "env_exited = env0\<lparr> polled := (\<lambda>task_id. True) \<rparr>"

definition state_crashed :: state where
  "state_crashed =
     (initial ((world0 [obj ''A'' ''in_progress''])
                 \<lparr> run_files := [''/r/.runs/A/worker.log'' \<mapsto> ''one'' @ NL @ ''two'' @ NL] \<rparr>))
       \<lparr> running := [''A''] \<rparr>"

text \<open>
  Two task objects that share an id, the first of them completed; a completed task beside
  a pending one; and a completed task object whose id is two spaces beside a pending task.
\<close>

definition queue_dup :: "raw_task list" where
  "queue_dup = [obj ''A'' ''completed'', obj ''A'' ''pending'']"

definition queue_ab :: "raw_task list" where
  "queue_ab = [obj ''A'' ''completed'', obj ''B'' ''pending'']"

definition queue_blank :: "raw_task list" where
  "queue_blank = [obj ''  '' ''completed'', obj ''B'' ''pending'']"

text \<open>
  An environment in which \<^verbatim>\<open>git rev-parse A\<close> fails as it does for a name git cannot
  resolve: return code 128, and the name on the standard output.
\<close>

definition env_unresolved :: env where
  "env_unresolved =
     env0\<lparr> git_reply := (\<lambda>cmds cmd. if cmd = [''git'', ''rev-parse'', ''A'']
                                      then (128, ''A'') else (0, ''sha'')) \<rparr>"

section \<open>Loaded tasks\<close>

lemma t_index_make_task [simp]: "t_index (make_task idx t) = idx"
  by (simp add: make_task_def)

lemma t_id_make_task [simp]: "t_id (make_task idx t) = raw_id t"
  by (simp add: make_task_def)

lemma t_status_make_task [simp]: "t_status (make_task idx t) = raw_status t"
  by (simp add: make_task_def)

section \<open>What the operations leave alone\<close>

lemmas prim_defs = print_line_def write_queue_def write_session_log_def write_file_def
  unlink_def mkdir_def issue_def

definition same_but_commands :: "state \<Rightarrow> state \<Rightarrow> bool" where
  "same_but_commands s s' =
     (\<exists>cmds. s' = s\<lparr> wld := (wld s)\<lparr> commands := commands (wld s) @ cmds \<rparr> \<rparr>)"

lemma same_but_commands_refl [simp]: "same_but_commands s s"
  unfolding same_but_commands_def by (rule exI [of _ "[]"]) simp

lemma same_but_commands_trans:
  "same_but_commands s s1 \<Longrightarrow> same_but_commands s1 s2 \<Longrightarrow> same_but_commands s s2"
  unfolding same_but_commands_def by (elim exE, rule_tac x = "cmds @ cmdsa" in exI) simp

lemma same_but_commands_issue [simp]: "same_but_commands s (issue cmd s)"
  unfolding same_but_commands_def issue_def by (rule exI [of _ "[cmd]"]) simp

lemma same_but_commands_fields:
  assumes "same_but_commands s s'"
  shows "running s' = running s" "printed s' = printed s"
    "task_to_worktree s' = task_to_worktree s" "task_base_sha s' = task_base_sha s"
    "queue_file (wld s') = queue_file (wld s)" "session_log (wld s') = session_log (wld s)"
    "run_files (wld s') = run_files (wld s)" "run_dirs (wld s') = run_dirs (wld s)"
  using assms unfolding same_but_commands_def by auto

lemma run_checked_same: "run_checked e cmd s = (r, s') \<Longrightarrow> same_but_commands s s'"
  by (auto simp: run_checked_def split: if_splits)

lemma run_cmd_same: "run_cmd e cmd s = (rc, s') \<Longrightarrow> same_but_commands s s'"
  by (auto simp: run_cmd_def)

lemma git_commit_paths_same:
  "git_commit_paths e track message s = (r, s') \<Longrightarrow> same_but_commands s s'"
  unfolding git_commit_paths_def
  by (auto split: prod.splits option.splits sum.splits if_splits
      dest!: run_checked_same intro: same_but_commands_trans)

lemma ensure_worktree_same:
  "ensure_worktree a base_branch e worktree s = (r, s') \<Longrightarrow> same_but_commands s s'"
  unfolding ensure_worktree_def Let_def
  by (auto split: prod.splits option.splits if_splits dest!: run_checked_same)

lemma remove_worktree_same: "same_but_commands s (remove_worktree a e worktree s)"
  unfolding remove_worktree_def Let_def
  by (auto simp: run_cmd_def)

lemma fast_forward_merge_same:
  "fast_forward_merge e base_branch integration_branch s = (r, s') \<Longrightarrow> same_but_commands s s'"
  unfolding fast_forward_merge_def
  by (auto split: prod.splits if_splits dest!: run_cmd_same intro: same_but_commands_trans)

lemma prepare_worktree_frame:
  assumes "prepare_worktree a base_branch e t s = (r, s')"
  shows "running s' = running s" "queue_file (wld s') = queue_file (wld s)"
    "session_log (wld s') = session_log (wld s)" "printed s' = printed s"
proof -
  have "running s' = running s \<and> queue_file (wld s') = queue_file (wld s)
        \<and> session_log (wld s') = session_log (wld s) \<and> printed s' = printed s"
  proof (cases "real_worktree (t_worktree t)")
    case False
    with assms show ?thesis by (simp add: prepare_worktree_def)
  next
    case True
    obtain r1 s1 where ew: "ensure_worktree a base_branch e (t_worktree t) s = (r1, s1)"
      by (cases "ensure_worktree a base_branch e (t_worktree t) s")
    note f = same_but_commands_fields [OF ensure_worktree_same [OF ew]]
    show ?thesis
      using assms True ew f
      by (auto simp: prepare_worktree_def Let_def prim_defs
          split: sum.splits prod.splits if_splits)
  qed
  thus "running s' = running s" "queue_file (wld s') = queue_file (wld s)"
    "session_log (wld s') = session_log (wld s)" "printed s' = printed s"
    by simp_all
qed

lemma docs_start_effect:
  assumes "docs_start a base_branch track e t s = (r, s')"
  shows "running s' = running s"
    and "queue_file (wld s') = queue_file (wld s)
         \<or> update_task (queue_file (wld s)) (t_id t) (start_update (utc_now e))
             = Inr (queue_file (wld s'))"
proof -
  have "running s' = running s
      \<and> (queue_file (wld s') = queue_file (wld s)
         \<or> update_task (queue_file (wld s)) (t_id t) (start_update (utc_now e))
             = Inr (queue_file (wld s')))"
  proof (cases "update_task (queue_file (wld s)) (t_id t) (start_update (utc_now e))")
    case (Inl err)
    with assms show ?thesis by (auto simp: docs_start_def)
  next
    case (Inr payload)
    define s3 where "s3 = write_queue payload (if session_log (wld s) \<noteq> None
                     then write_session_log
                            (append_session_log (session_log (wld s))
                               (session_log_start (log_time e) (t_id t) (role_label (t_type t))
                                  base_branch (t_kickoff_ref t)
                                  (if real_worktree (t_worktree t) then t_worktree t else [])))
                            s
                     else s)"
    have s3: "running s3 = running s" "queue_file (wld s3) = payload"
      by (simp_all add: s3_def prim_defs)
    have "(if \<not> dry_run a
              then git_commit_paths e track (''docs: start '' @ t_id t) s3
              else (None, s3)) = (r, s')"
      using assms unfolding docs_start_def Let_def Inr s3_def by (simp only: sum.case)
    hence "same_but_commands s3 s'"
      by (auto split: if_splits dest: git_commit_paths_same)
    from same_but_commands_fields [OF this] s3 Inr show ?thesis by simp
  qed
  thus "running s' = running s"
    and "queue_file (wld s') = queue_file (wld s)
         \<or> update_task (queue_file (wld s)) (t_id t) (start_update (utc_now e))
             = Inr (queue_file (wld s'))"
    by simp_all
qed

lemma spawn_worker_effect:
  assumes "spawn_worker a base_branch e t kickoff_text s = (r, s')"
  shows "running s' = (if r = None \<and> \<not> dry_run a then running s @ [t_id t] else running s)"
    and "queue_file (wld s') = queue_file (wld s)"
proof -
  obtain r5 s5 where pw: "prepare_worktree a base_branch e t s = (r5, s5)"
    by (cases "prepare_worktree a base_branch e t s")
  note f5 = prepare_worktree_frame [OF pw]
  have "running s' = (if r = None \<and> \<not> dry_run a then running s @ [t_id t] else running s)
      \<and> queue_file (wld s') = queue_file (wld s)"
    using assms pw f5
    by (auto simp: spawn_worker_def Let_def prim_defs split: sum.splits if_splits)
  thus "running s' = (if r = None \<and> \<not> dry_run a then running s @ [t_id t] else running s)"
    and "queue_file (wld s') = queue_file (wld s)"
    by simp_all
qed

lemma admit_one_effect:
  assumes "admit_one a base_branch track e t s = (r, s')"
  shows "running s' = (if r = None \<and> \<not> dry_run a then running s @ [t_id t] else running s)"
    and "queue_file (wld s') = queue_file (wld s)
         \<or> update_task (queue_file (wld s)) (t_id t) (start_update (utc_now e))
             = Inr (queue_file (wld s'))"
proof -
  let ?s1 = "unlink (done_path a (t_id t)) (mkdir (run_dir a (t_id t)) s)"
  have s1: "running ?s1 = running s" "queue_file (wld ?s1) = queue_file (wld s)"
    by (simp_all add: prim_defs)
  have "running s' = (if r = None \<and> \<not> dry_run a then running s @ [t_id t] else running s)
      \<and> (queue_file (wld s') = queue_file (wld s)
         \<or> update_task (queue_file (wld s)) (t_id t) (start_update (utc_now e))
             = Inr (queue_file (wld s')))"
  proof (cases "load_kickoff_text (kickoff_disk e) (t_kickoff_ref t)")
    case (Inl err)
    with assms s1 show ?thesis by (auto simp: admit_one_def)
  next
    case (Inr kickoff_text)
    obtain r4 s4 where ds: "docs_start a base_branch track e t ?s1 = (r4, s4)"
      by (cases "docs_start a base_branch track e t ?s1")
    note f4 = docs_start_effect [OF ds, unfolded s1]
    show ?thesis
    proof (cases r4)
      case (Some err)
      with assms Inr ds f4 show ?thesis by (auto simp: admit_one_def)
    next
      case None
      with assms Inr ds have "spawn_worker a base_branch e t kickoff_text s4 = (r, s')"
        by (simp add: admit_one_def)
      from spawn_worker_effect [OF this] f4 show ?thesis by auto
    qed
  qed
  thus "running s' = (if r = None \<and> \<not> dry_run a then running s @ [t_id t] else running s)"
    and "queue_file (wld s') = queue_file (wld s)
         \<or> update_task (queue_file (wld s)) (t_id t) (start_update (utc_now e))
             = Inr (queue_file (wld s'))"
    by simp_all
qed

section \<open>Updates of the queue\<close>

lemma update_task_Inr:
  "update_task q task_id upd = Inr q' \<longleftrightarrow>
     (\<exists>i < length q. raw_id (q ! i) = task_id \<and> (\<forall>j < i. raw_id (q ! j) \<noteq> task_id)
        \<and> q' = q[i := upd (q ! i)])"
proof (induction q arbitrary: q')
  case Nil
  then show ?case by simp
next
  case (Cons x xs)
  show ?case
  proof (cases "raw_id x = task_id")
    case True
    show ?thesis
    proof
      assume "update_task (x # xs) task_id upd = Inr q'"
      with True have "q' = (x # xs)[0 := upd ((x # xs) ! 0)]" by auto
      with True show "\<exists>i < length (x # xs). raw_id ((x # xs) ! i) = task_id
          \<and> (\<forall>j < i. raw_id ((x # xs) ! j) \<noteq> task_id) \<and> q' = (x # xs)[i := upd ((x # xs) ! i)]"
        by (intro exI [of _ 0]) simp
    next
      assume "\<exists>i < length (x # xs). raw_id ((x # xs) ! i) = task_id
          \<and> (\<forall>j < i. raw_id ((x # xs) ! j) \<noteq> task_id) \<and> q' = (x # xs)[i := upd ((x # xs) ! i)]"
      then obtain i where i: "i < length (x # xs)" "\<forall>j < i. raw_id ((x # xs) ! j) \<noteq> task_id"
        "q' = (x # xs)[i := upd ((x # xs) ! i)]" by blast
      from i(2) True have "i = 0" by (cases i) auto
      with i(3) True show "update_task (x # xs) task_id upd = Inr q'" by simp
    qed
  next
    case False
    show ?thesis
    proof
      assume "update_task (x # xs) task_id upd = Inr q'"
      with False obtain q'' where q'': "update_task xs task_id upd = Inr q''" "q' = x # q''"
        by (auto split: sum.splits)
      from q''(1) Cons.IH [of q''] obtain i where i: "i < length xs" "raw_id (xs ! i) = task_id"
        "\<forall>j < i. raw_id (xs ! j) \<noteq> task_id" "q'' = xs[i := upd (xs ! i)]" by blast
      have "\<forall>j < Suc i. raw_id ((x # xs) ! j) \<noteq> task_id"
        using False i(3) by (auto simp: nth_Cons split: nat.splits)
      with i q''(2) show "\<exists>i < length (x # xs). raw_id ((x # xs) ! i) = task_id
          \<and> (\<forall>j < i. raw_id ((x # xs) ! j) \<noteq> task_id) \<and> q' = (x # xs)[i := upd ((x # xs) ! i)]"
        by (intro exI [of _ "Suc i"]) simp
    next
      assume "\<exists>i < length (x # xs). raw_id ((x # xs) ! i) = task_id
          \<and> (\<forall>j < i. raw_id ((x # xs) ! j) \<noteq> task_id) \<and> q' = (x # xs)[i := upd ((x # xs) ! i)]"
      then obtain i where i: "i < length (x # xs)" "raw_id ((x # xs) ! i) = task_id"
        "\<forall>j < i. raw_id ((x # xs) ! j) \<noteq> task_id"
        "q' = (x # xs)[i := upd ((x # xs) ! i)]" by blast
      from i(2) False obtain k where k: "i = Suc k" by (cases i) auto
      with i have "k < length xs" "raw_id (xs ! k) = task_id" "q' = x # xs[k := upd (xs ! k)]"
        by simp_all
      moreover from i(3) k have "\<forall>j < k. raw_id (xs ! j) \<noteq> task_id" by auto
      ultimately have "update_task xs task_id upd = Inr (xs[k := upd (xs ! k)])"
        using Cons.IH [of "xs[k := upd (xs ! k)]"] by blast
      with False \<open>q' = x # xs[k := upd (xs ! k)]\<close>
      show "update_task (x # xs) task_id upd = Inr q'" by simp
    qed
  qed
qed

lemma find_load_tasks_from:
  assumes "find (\<lambda>t. t_id t = task_id)
             (map (\<lambda>(idx, t). make_task idx t)
                (filter (\<lambda>(idx, t). raw_id t \<noteq> []) (enumerate n q))) = Some this"
  shows "\<exists>i < length q. raw_id (q ! i) = task_id \<and> (\<forall>j < i. raw_id (q ! j) \<noteq> task_id)
           \<and> this = make_task (n + i) (q ! i) \<and> task_id \<noteq> []"
  using assms
proof (induction q arbitrary: n)
  case Nil
  then show ?case by simp
next
  case (Cons x xs)
  show ?case
  proof (cases "raw_id x = task_id \<and> raw_id x \<noteq> []")
    case True
    with Cons.prems have "this = make_task n x" by auto
    with True show ?thesis by (intro exI [of _ 0]) auto
  next
    case False
    with Cons.prems
    have "find (\<lambda>t. t_id t = task_id)
             (map (\<lambda>(idx, t). make_task idx t)
                (filter (\<lambda>(idx, t). raw_id t \<noteq> []) (enumerate (Suc n) xs))) = Some this"
      by (auto split: if_splits)
    from Cons.IH [OF this] obtain i where i: "i < length xs" "raw_id (xs ! i) = task_id"
      "\<forall>j < i. raw_id (xs ! j) \<noteq> task_id" "this = make_task (Suc n + i) (xs ! i)" "task_id \<noteq> []"
      by blast
    from False i(5) have "raw_id x \<noteq> task_id" by auto
    with i(3) have "\<forall>j < Suc i. raw_id ((x # xs) ! j) \<noteq> task_id"
      by (auto simp: nth_Cons split: nat.splits)
    with i show ?thesis by (intro exI [of _ "Suc i"]) simp
  qed
qed

lemma find_load_tasks:
  assumes "find (\<lambda>t. t_id t = task_id) (load_tasks q) = Some this"
  shows "t_index this < length q" "raw_id (q ! t_index this) = task_id"
    "\<forall>j < t_index this. raw_id (q ! j) \<noteq> task_id" "this = make_task (t_index this) (q ! t_index this)"
    "task_id \<noteq> []"
proof -
  from find_load_tasks_from [OF assms [unfolded load_tasks_def]]
  obtain i where i: "i < length q" "raw_id (q ! i) = task_id" "\<forall>j < i. raw_id (q ! j) \<noteq> task_id"
    "this = make_task i (q ! i)" "task_id \<noteq> []" by auto
  from i(4) have "t_index this = i" by simp
  with i show "t_index this < length q" "raw_id (q ! t_index this) = task_id"
    "\<forall>j < t_index this. raw_id (q ! j) \<noteq> task_id" "this = make_task (t_index this) (q ! t_index this)"
    "task_id \<noteq> []"
    by simp_all
qed

lemma update_task_found:
  assumes "find (\<lambda>t. t_id t = task_id) (load_tasks q) = Some this"
  shows "update_task q task_id upd = Inr (q[t_index this := upd (q ! t_index this)])"
  using find_load_tasks [OF assms]
  by (subst update_task_Inr) blast

section \<open>Kickoff references: results\<close>






section \<open>The ready set\<close>






lemma set_load_tasks:
  "set (load_tasks payload) =
     {make_task i (payload ! i) | i. i < length payload \<and> raw_id (payload ! i) \<noteq> []}"
proof -
  have "set (load_tasks payload) =
          (\<lambda>p. make_task (fst p) (snd p)) ` {p \<in> set (enumerate 0 payload). raw_id (snd p) \<noteq> []}"
    by (simp add: load_tasks_def case_prod_unfold)
  also have "\<dots> = {make_task i (payload ! i) | i. i < length payload \<and> raw_id (payload ! i) \<noteq> []}"
  proof (rule set_eqI, rule iffI)
    fix x
    assume "x \<in> (\<lambda>p. make_task (fst p) (snd p)) ` {p \<in> set (enumerate 0 payload). raw_id (snd p) \<noteq> []}"
    then obtain p where p: "p \<in> set (enumerate 0 payload)" "raw_id (snd p) \<noteq> []"
      and x: "x = make_task (fst p) (snd p)" by blast
    from p(1) have "fst p < length payload" "payload ! fst p = snd p"
      by (simp_all add: in_set_enumerate_eq)
    with p(2) x have "x = make_task (fst p) (payload ! fst p) \<and> fst p < length payload
        \<and> raw_id (payload ! fst p) \<noteq> []" by simp
    thus "x \<in> {make_task i (payload ! i) | i. i < length payload \<and> raw_id (payload ! i) \<noteq> []}"
      by blast
  next
    fix x
    assume "x \<in> {make_task i (payload ! i) | i. i < length payload \<and> raw_id (payload ! i) \<noteq> []}"
    then obtain i where i: "i < length payload" "raw_id (payload ! i) \<noteq> []"
      and x: "x = make_task i (payload ! i)" by blast
    from i(1) have "(i, payload ! i) \<in> set (enumerate 0 payload)"
      by (simp add: in_set_enumerate_eq)
    with i(2) x show "x \<in> (\<lambda>p. make_task (fst p) (snd p)) ` {p \<in> set (enumerate 0 payload). raw_id (snd p) \<noteq> []}"
      by force
  qed
  finally show ?thesis .
qed

lemma done_ids_payload:
  "done_ids (load_tasks payload) =
     {raw_id r | r. r \<in> set payload \<and> raw_id r \<noteq> [] \<and> raw_status r = ''completed''}"
proof (rule set_eqI, rule iffI)
  fix x
  assume "x \<in> done_ids (load_tasks payload)"
  then obtain t where t: "t \<in> set (load_tasks payload)" "t_status t = ''completed''" "x = t_id t"
    by (auto simp: done_ids_def)
  from t(1) obtain i where i: "i < length payload" "raw_id (payload ! i) \<noteq> []"
    "t = make_task i (payload ! i)"
    unfolding set_load_tasks by blast
  with t(2,3) have "payload ! i \<in> set payload" "raw_status (payload ! i) = ''completed''"
    "x = raw_id (payload ! i)" by simp_all
  with i(2) show "x \<in> {raw_id r | r. r \<in> set payload \<and> raw_id r \<noteq> [] \<and> raw_status r = ''completed''}"
    by blast
next
  fix x
  assume "x \<in> {raw_id r | r. r \<in> set payload \<and> raw_id r \<noteq> [] \<and> raw_status r = ''completed''}"
  then obtain r where r: "r \<in> set payload" "raw_id r \<noteq> []" "raw_status r = ''completed''"
    "x = raw_id r" by blast
  from r(1) obtain i where i: "i < length payload" "payload ! i = r"
    by (auto simp: in_set_conv_nth)
  with r(2) have "make_task i r \<in> set (load_tasks payload)"
    unfolding set_load_tasks by blast
  moreover have "t_status (make_task i r) = ''completed''" "t_id (make_task i r) = x"
    using r by simp_all
  ultimately show "x \<in> done_ids (load_tasks payload)"
    unfolding done_ids_def by force
qed

lemma ready_filter:
  "ready a payload =
     sort_key t_order
       (filter (\<lambda>t. in_scope a t \<and> t_status t = ''pending''
                     \<and> set (t_depends_on t) \<subseteq> done_ids (load_tasks payload))
          (load_tasks payload))"
proof -
  have "\<And>P Q R xs. filter (\<lambda>t. P t \<and> Q t) (filter R xs) = filter (\<lambda>t. R t \<and> P t \<and> Q t) xs"
    by (simp add: conj_commute conj_left_commute)
  thus ?thesis
    by (simp add: ready_def runnable_tasks_def list_all_iff subset_eq)
qed


section \<open>Stop on blocked\<close>

text \<open>
  C6 asks that \<^verbatim>\<open>--stop-on-blocked\<close> looks at the tasks of the filtered scope, the one both
  allowlists give. The \<^verbatim>\<open>blocked\<close> list of \<^verbatim>\<open>main\<close> applies \<^verbatim>\<open>--only-task-ids\<close> and leaves
  \<^verbatim>\<open>--id-regex\<close> out, while the \<^verbatim>\<open>tasks\<close> list three lines above applies both. With the
  queue \<^verbatim>\<open>[A blocked, B pending]\<close> and the regex \<^verbatim>\<open>^B$\<close>, no task of the filtered scope is
  blocked, and the tick still stops the run with exit code 1.
\<close>

theorem stop_on_blocked_ignores_id_regex:
  "fst (tick (args0\<lparr> stop_on_blocked := True, id_regex := Some only_B \<rparr>) ''main'' [''q.json'']
          env0 (initial (world0 [obj ''A'' ''blocked'', obj ''B'' ''pending''])))
     = Exit 1
   \<and> printed (snd (tick (args0\<lparr> stop_on_blocked := True, id_regex := Some only_B \<rparr>) ''main''
                      [''q.json''] env0
                      (initial (world0 [obj ''A'' ''blocked'', obj ''B'' ''pending'']))))
     = [''STOP: 1 blocked task(s).'']
   \<and> filter (\<lambda>t. t_status t = ''blocked'')
       (filter (in_scope (args0\<lparr> stop_on_blocked := True, id_regex := Some only_B \<rparr>))
          (load_tasks [obj ''A'' ''blocked'', obj ''B'' ''pending''])) = []"
  by code_simp

section \<open>The blockers line\<close>

text \<open>
  A line that starts with a dash and a blank never matches the pattern, which wants a
  backslash after the dash.
\<close>

lemma blocker_match_line_bullet: "blocker_match_line (''- '' @ rest) = None"
  by (simp add: blocker_match_line_def eat_def lower_def lower_char_def BACKSLASH_def)

lemma blockers_line_bullet:
  assumes "CHR 0x0A \<notin> set rest"
  shows "blockers_line (Some (''- **Blockers**: '' @ rest)) = ''- Blockers: none''"
proof -
  have "split_on (CHR 0x0A) rest = [rest]"
    using assms by (induction rest) (auto split: list.splits)
  hence "split_on (CHR 0x0A) (''- **Blockers**: '' @ rest) = [''- **Blockers**: '' @ rest]"
    by simp
  moreover have "blocker_match_line (''- **Blockers**: '' @ rest) = None"
    using blocker_match_line_bullet [of "''**Blockers**: '' @ rest"] by simp
  ultimately show ?thesis
    by (simp add: blockers_line_def blocker_search_def)
qed

text \<open>
  C9 asks that a last message with the bullet \<^verbatim>\<open>- **Blockers**: waiting on review\<close> ends
  the END entry with \<^verbatim>\<open>- Blockers: waiting on review\<close>. The pattern of
  \<^verbatim>\<open>_session_log_end\<close> doubles its backslashes inside a raw string and so asks for
  backslashes the bullet does not have: the line after the worker summary is
  \<^verbatim>\<open>- Blockers: none\<close>.
\<close>

theorem session_log_end_misses_blockers_bullet:
  "blockers_line (Some ''- **Blockers**: waiting on review'') = ''- Blockers: none''
   \<and> drop 3 (session_log_end_lines ''L'' ''A'' ''Code'' ''work/A'' ''/r/.runs/A/last_message.md''
               (Some ''- **Blockers**: waiting on review'') [])
     = [''- Worker summary (first ~40 lines):'', ''```text'',
        ''- **Blockers**: waiting on review'', ''```'', ''- Blockers: none'', []]
   \<and> blocker_match_line ([CHR ''-'', BACKSLASH] @ ''Blockers:'' @ [BACKSLASH] @ '' waiting'')
     = Some '' waiting''"
  by code_simp

section \<open>Dry run\<close>

lemma wld_print_line [simp]: "wld (print_line l s) = wld s"
  by (simp add: print_line_def)

lemma printed_print_line [simp]: "printed (print_line l s) = printed s @ [l]"
  by (simp add: print_line_def)

lemma wld_fold_print: "wld (fold (\<lambda>t. print_line (f t)) ts s) = wld s"
  by (induction ts arbitrary: s) simp_all









section \<open>The admission pass\<close>

lemma admit_loop_running:
  assumes "admit_loop a base_branch track e ts active s = ((None, admitted), s')" "\<not> dry_run a"
  shows "running s' = running s @ map t_id admitted"
  using assms
proof (induction ts arbitrary: active s admitted s')
  case Nil
  then show ?case by simp
next
  case (Cons t ts)
  show ?case
  proof (cases "t_id t \<in> set (running s)
      \<or> (per_workstream a > 0 \<and> t_workstream_id t \<in> active \<and> int (length (running s)) < max_workers a)")
    case True
    with Cons.prems have "admit_loop a base_branch track e ts active s = ((None, admitted), s')"
      by (auto split: if_splits)
    from Cons.IH [OF this Cons.prems(2)] show ?thesis .
  next
    case skip: False
    show ?thesis
    proof (cases "int (length (running s)) \<ge> max_workers a")
      case True
      with Cons.prems skip show ?thesis by auto
    next
      case False
      obtain r1 s1 where a1: "admit_one a base_branch track e t s = (r1, s1)"
        by (cases "admit_one a base_branch track e t s")
      obtain r2 adm2 s2 where a2: "admit_loop a base_branch track e ts
          (insert (t_workstream_id t) active) s1 = ((r2, adm2), s2)"
        by (cases "admit_loop a base_branch track e ts (insert (t_workstream_id t) active) s1") auto
      from Cons.prems(1) skip False a1 a2
      have r1: "r1 = None" and eqs: "r2 = None" "admitted = t # adm2" "s' = s2"
        by (auto split: option.splits)
      from admit_one_effect(1) [OF a1] r1 Cons.prems(2)
      have "running s1 = running s @ [t_id t]" by simp
      moreover from Cons.IH [OF a2 [unfolded eqs(1)] Cons.prems(2)]
      have "running s2 = running s1 @ map t_id adm2" .
      ultimately show ?thesis using eqs by simp
    qed
  qed
qed

lemma admit_loop_subseq:
  "admit_loop a base_branch track e ts active s = ((r, admitted), s') \<Longrightarrow> subseq admitted ts"
proof (induction ts arbitrary: active s admitted r s')
  case Nil
  then show ?case by simp
next
  case (Cons t ts)
  show ?case
  proof (cases "t_id t \<in> set (running s)
      \<or> (per_workstream a > 0 \<and> t_workstream_id t \<in> active \<and> int (length (running s)) < max_workers a)")
    case True
    with Cons.prems have "admit_loop a base_branch track e ts active s = ((r, admitted), s')"
      by (auto split: if_splits)
    from Cons.IH [OF this] show ?thesis by (rule list_emb_Cons)
  next
    case skip: False
    show ?thesis
    proof (cases "int (length (running s)) \<ge> max_workers a")
      case True
      with Cons.prems skip show ?thesis by auto
    next
      case False
      obtain r1 s1 where a1: "admit_one a base_branch track e t s = (r1, s1)"
        by (cases "admit_one a base_branch track e t s")
      obtain r2 adm2 s2 where a2: "admit_loop a base_branch track e ts
          (insert (t_workstream_id t) active) s1 = ((r2, adm2), s2)"
        by (cases "admit_loop a base_branch track e ts (insert (t_workstream_id t) active) s1") auto
      from Cons.prems(1) skip False a1 a2
      have "admitted = [t] \<or> admitted = t # adm2"
        by (auto split: option.splits)
      with Cons.IH [OF a2] show ?thesis by auto
    qed
  qed
qed

lemma admit_loop_guards:
  assumes "admit_loop a base_branch track e ts active s = ((r, pre @ t # post), s')" "\<not> dry_run a"
  shows "int (length (running s) + length pre) < max_workers a
       \<and> (per_workstream a \<le> 0 \<or> t_workstream_id t \<notin> active \<union> t_workstream_id ` set pre)"
  using assms
proof (induction ts arbitrary: active s pre r s')
  case Nil
  then show ?case by simp
next
  case (Cons x ts)
  show ?case
  proof (cases "t_id x \<in> set (running s)
      \<or> (per_workstream a > 0 \<and> t_workstream_id x \<in> active \<and> int (length (running s)) < max_workers a)")
    case True
    with Cons.prems have "admit_loop a base_branch track e ts active s = ((r, pre @ t # post), s')"
      by (auto split: if_splits)
    from Cons.IH [OF this Cons.prems(2)] show ?thesis .
  next
    case skip: False
    show ?thesis
    proof (cases "int (length (running s)) \<ge> max_workers a")
      case True
      with Cons.prems skip show ?thesis by auto
    next
      case False
      obtain r1 s1 where a1: "admit_one a base_branch track e x s = (r1, s1)"
        by (cases "admit_one a base_branch track e x s")
      obtain r2 adm2 s2 where a2: "admit_loop a base_branch track e ts
          (insert (t_workstream_id x) active) s1 = ((r2, adm2), s2)"
        by (cases "admit_loop a base_branch track e ts (insert (t_workstream_id x) active) s1") auto
      from Cons.prems(1) skip False a1 a2
      have cases: "(pre @ t # post = [x]) \<or> (r1 = None \<and> r2 = r \<and> pre @ t # post = x # adm2)"
        by (auto split: option.splits)
      show ?thesis
      proof (cases pre)
        case Nil
        with cases have "t = x" by auto
        with Nil skip False show ?thesis by auto
      next
        case (Cons y pre')
        with cases have r1: "r1 = None" and r2: "r2 = r" and y: "y = x" and adm2: "adm2 = pre' @ t # post"
          by auto
        from admit_one_effect(1) [OF a1] r1 \<open>\<not> dry_run a\<close>
        have run1: "running s1 = running s @ [t_id x]" by simp
        from Cons.IH [OF a2 [unfolded adm2] \<open>\<not> dry_run a\<close>]
        have "int (length (running s1) + length pre') < max_workers a
          \<and> (per_workstream a \<le> 0 \<or> t_workstream_id t \<notin> insert (t_workstream_id x) active \<union> t_workstream_id ` set pre')" .
        with run1 Cons y show ?thesis by auto
      qed
    qed
  qed
qed

lemma admit_loop_left_out:
  assumes "admit_loop a base_branch track e ts active s = ((None, admitted), s')" "\<not> dry_run a"
    and "per_workstream a \<le> 0" and "x \<in> set ts"
  shows "x \<in> set admitted \<or> t_id x \<in> set (running s')
       \<or> max_workers a \<le> int (length (running s'))"
  using assms
proof (induction ts arbitrary: active s admitted s')
  case Nil
  then show ?case by simp
next
  case (Cons t ts)
  note run = admit_loop_running [OF Cons.prems(1,2)]
  show ?case
  proof (cases "t_id t \<in> set (running s)")
    case True
    with Cons.prems have rest: "admit_loop a base_branch track e ts active s = ((None, admitted), s')"
      by (auto split: if_splits)
    show ?thesis
    proof (cases "x = t")
      case True
      with \<open>t_id t \<in> set (running s)\<close> run show ?thesis by simp
    next
      case False
      with Cons.prems(4) have "x \<in> set ts" by simp
      from Cons.IH [OF rest Cons.prems(2,3) this] show ?thesis .
    qed
  next
    case skip: False
    show ?thesis
    proof (cases "int (length (running s)) \<ge> max_workers a")
      case True
      with Cons.prems skip show ?thesis by auto
    next
      case False
      obtain r1 s1 where a1: "admit_one a base_branch track e t s = (r1, s1)"
        by (cases "admit_one a base_branch track e t s")
      obtain r2 adm2 s2 where a2: "admit_loop a base_branch track e ts
          (insert (t_workstream_id t) active) s1 = ((r2, adm2), s2)"
        by (cases "admit_loop a base_branch track e ts (insert (t_workstream_id t) active) s1") auto
      from Cons.prems(1,3) skip False a1 a2
      have eqs: "r1 = None" "r2 = None" "admitted = t # adm2" "s' = s2"
        by (auto split: option.splits)
      show ?thesis
      proof (cases "x = t")
        case True
        with eqs show ?thesis by simp
      next
        case False
        with Cons.prems(4) have "x \<in> set ts" by simp
        from Cons.IH [OF a2 [unfolded eqs(2)] Cons.prems(2,3) this] eqs show ?thesis by auto
      qed
    qed
  qed
qed

lemma admit_loop_take:
  assumes "admit_loop a base_branch track e ts active s = ((None, admitted), s')" "\<not> dry_run a"
    and "per_workstream a \<le> 0" and "distinct (map t_id ts)"
    and "set (map t_id ts) \<inter> set (running s) = {}"
  shows "admitted = take (nat (max_workers a - int (length (running s)))) ts"
  using assms
proof (induction ts arbitrary: active s admitted s')
  case Nil
  then show ?case by simp
next
  case (Cons t ts)
  from Cons.prems(5) have skip: "t_id t \<notin> set (running s)" by auto
  show ?case
  proof (cases "int (length (running s)) \<ge> max_workers a")
    case True
    with Cons.prems skip show ?thesis by auto
  next
    case False
    obtain r1 s1 where a1: "admit_one a base_branch track e t s = (r1, s1)"
      by (cases "admit_one a base_branch track e t s")
    obtain r2 adm2 s2 where a2: "admit_loop a base_branch track e ts
        (insert (t_workstream_id t) active) s1 = ((r2, adm2), s2)"
      by (cases "admit_loop a base_branch track e ts (insert (t_workstream_id t) active) s1") auto
    from Cons.prems(1,3) skip False a1 a2
    have eqs: "r1 = None" "r2 = None" "admitted = t # adm2" "s' = s2"
      by (auto split: option.splits)
    from admit_one_effect(1) [OF a1] eqs(1) Cons.prems(2)
    have run1: "running s1 = running s @ [t_id t]" by simp
    from Cons.prems(4,5) run1 have d: "distinct (map t_id ts)"
      and i: "set (map t_id ts) \<inter> set (running s1) = {}" by auto
    from Cons.IH [OF a2 [unfolded eqs(2)] Cons.prems(2,3) d i]
    have "adm2 = take (nat (max_workers a - int (length (running s1)))) ts" .
    moreover from False obtain k where k: "nat (max_workers a - int (length (running s))) = Suc k"
      by (cases "nat (max_workers a - int (length (running s)))") auto
    moreover from k run1 have "nat (max_workers a - int (length (running s1))) = k"
      by simp
    ultimately show ?thesis using eqs by simp
  qed
qed

lemma plan_prefix: "\<exists>adm. plan a ts active planned = planned @ adm"
proof (induction ts arbitrary: active planned)
  case Nil
  then show ?case by simp
next
  case (Cons x ts)
  from Cons.IH [of active planned] obtain adm1 where 1: "plan a ts active planned = planned @ adm1"
    by blast
  from Cons.IH [of "insert (t_workstream_id x) active" "planned @ [x]"]
  obtain adm2 where 2: "plan a ts (insert (t_workstream_id x) active) (planned @ [x])
     = planned @ x # adm2" by auto
  show ?case using 1 2 by auto
qed

lemma plan_guards:
  "plan a ts active planned = planned @ pre @ t # post \<Longrightarrow>
     int (length planned + length pre) < max_workers a
     \<and> (per_workstream a \<le> 0 \<or> t_workstream_id t \<notin> active \<union> t_workstream_id ` set pre)"
proof (induction ts arbitrary: active planned pre)
  case Nil
  then show ?case by simp
next
  case (Cons x ts)
  show ?case
  proof (cases "int (length planned) \<ge> max_workers a")
    case True
    with Cons.prems show ?thesis by simp
  next
    case False
    show ?thesis
    proof (cases "per_workstream a > 0 \<and> t_workstream_id x \<in> active")
      case True
      with Cons.prems False have "plan a ts active planned = planned @ pre @ t # post" by simp
      from Cons.IH [OF this] show ?thesis .
    next
      case gate: False
      with Cons.prems False
      have p: "plan a ts (insert (t_workstream_id x) active) (planned @ [x]) = planned @ pre @ t # post"
        by auto
      have "\<exists>adm. plan a ts (insert (t_workstream_id x) active) (planned @ [x]) = (planned @ [x]) @ adm"
        by (rule plan_prefix)
      then obtain adm where "plan a ts (insert (t_workstream_id x) active) (planned @ [x])
          = (planned @ [x]) @ adm" by blast
      with p have split: "pre @ t # post = x # adm" by simp
      show ?thesis
      proof (cases pre)
        case Nil
        with split have "t = x" by simp
        with Nil False gate show ?thesis by auto
      next
        case (Cons y pre')
        with split have y: "y = x" by simp
        with p Cons have "plan a ts (insert (t_workstream_id x) active) (planned @ [x])
            = (planned @ [x]) @ pre' @ t # post" by simp
        from Cons.IH [OF this] Cons y show ?thesis by auto
      qed
    qed
  qed
qed

lemma plan_take:
  "per_workstream a \<le> 0 \<Longrightarrow>
     plan a ts active planned = planned @ take (nat (max_workers a - int (length planned))) ts"
proof (induction ts arbitrary: active planned)
  case Nil
  then show ?case by simp
next
  case (Cons x ts)
  show ?case
  proof (cases "int (length planned) \<ge> max_workers a")
    case True
    then show ?thesis by simp
  next
    case False
    then obtain k where k: "nat (max_workers a - int (length planned)) = Suc k"
      by (cases "nat (max_workers a - int (length planned))") auto
    hence "nat (max_workers a - int (length (planned @ [x]))) = k" by simp
    with Cons.IH [OF Cons.prems, of "insert (t_workstream_id x) active" "planned @ [x]"] k False Cons.prems
    show ?thesis by simp
  qed
qed

text \<open>
  C5, as stated, says that with \<^verbatim>\<open>per_workstream == 0\<close> only the global cap limits
  admission. The loop also skips a ready task whose id is already a key of \<^verbatim>\<open>running\<close>:
  of two ready tasks that share the id A, with room for two workers and none running, the
  pass admits the first and leaves the second out.
\<close>

theorem admission_skips_running_id_counterexample:
  "per_workstream (args0\<lparr> per_workstream := 0 \<rparr>) = 0
   \<and> max_workers (args0\<lparr> per_workstream := 0 \<rparr>) = 2
   \<and> running (initial (world0 queue_aa)) = []
   \<and> map t_index (ready (args0\<lparr> per_workstream := 0 \<rparr>) queue_aa) = [0, 1]
   \<and> fst (fst (admit_loop (args0\<lparr> per_workstream := 0 \<rparr>) ''main'' [''q.json''] env0
                 (ready (args0\<lparr> per_workstream := 0 \<rparr>) queue_aa)
                 (active_workstreams queue_aa) (initial (world0 queue_aa)))) = None
   \<and> map t_index
         (snd (fst (admit_loop (args0\<lparr> per_workstream := 0 \<rparr>) ''main'' [''q.json''] env0
                      (ready (args0\<lparr> per_workstream := 0 \<rparr>) queue_aa)
                      (active_workstreams queue_aa) (initial (world0 queue_aa))))) = [0]"
  by code_simp

text \<open>
  C5, amended. In an admission pass the tasks are taken in the order of the ready set, and
  a task is admitted only if the number of running workers (those running before the pass
  and those admitted earlier in it) is strictly below \<^verbatim>\<open>max_workers\<close> and, when
  \<^verbatim>\<open>per_workstream > 0\<close>, its workstream id is neither that of an \<^verbatim>\<open>in_progress\<close> task
  object of the queue nor that of a task admitted earlier in the pass; the same holds of
  the preview of a dry run. When \<^verbatim>\<open>per_workstream\<close> is 0 (or less) the workstream gate is
  off: a ready task is left out of a pass that ends without an exception only if its id is
  already a key of \<^verbatim>\<open>running\<close> or the cap is reached; so if the ready tasks have distinct
  ids of which none is running, the pass admits the first \<^verbatim>\<open>max_workers - len(running)\<close>
  ready tasks, and the preview of a dry run lists the first \<^verbatim>\<open>max_workers\<close> of them.
\<close>

theorem admission_pass:
  assumes "admit_loop a base_branch track e runnable (active_workstreams payload) s
             = ((r, admitted), s')"
    and "\<not> dry_run a"
  shows "subseq admitted runnable
   \<and> (\<forall>pre t post. admitted = pre @ t # post \<longrightarrow>
         int (length (running s) + length pre) < max_workers a
         \<and> (per_workstream a > 0 \<longrightarrow>
              t_workstream_id t \<notin> active_workstreams payload
              \<and> t_workstream_id t \<notin> t_workstream_id ` set pre))
   \<and> (per_workstream a \<le> 0 \<and> r = None \<longrightarrow>
         (\<forall>x \<in> set runnable.
            x \<in> set admitted \<or> t_id x \<in> set (running s')
            \<or> max_workers a \<le> int (length (running s')))
         \<and> (distinct (map t_id runnable) \<and> set (map t_id runnable) \<inter> set (running s) = {} \<longrightarrow>
              admitted = take (nat (max_workers a - int (length (running s)))) runnable))
   \<and> (\<forall>pre t post. plan a runnable (active_workstreams payload) [] = pre @ t # post \<longrightarrow>
         int (length pre) < max_workers a
         \<and> (per_workstream a > 0 \<longrightarrow>
              t_workstream_id t \<notin> active_workstreams payload
              \<and> t_workstream_id t \<notin> t_workstream_id ` set pre))
   \<and> (per_workstream a \<le> 0 \<longrightarrow>
         plan a runnable (active_workstreams payload) [] = take (nat (max_workers a)) runnable)"
proof (intro conjI allI impI ballI)
  show "subseq admitted runnable"
    using assms(1) by (rule admit_loop_subseq)
next
  fix pre t post
  assume adm: "admitted = pre @ t # post"
  from admit_loop_guards [OF assms(1) [unfolded adm] assms(2)]
  have g: "int (length (running s) + length pre) < max_workers a
       \<and> (per_workstream a \<le> 0 \<or> t_workstream_id t \<notin> active_workstreams payload \<union> t_workstream_id ` set pre)" .
  thus "int (length (running s) + length pre) < max_workers a" by simp
  { assume "0 < per_workstream a"
    with g show "t_workstream_id t \<notin> active_workstreams payload" by auto
    from g \<open>0 < per_workstream a\<close> show "t_workstream_id t \<notin> t_workstream_id ` set pre" by auto }
next
  fix x
  assume h: "per_workstream a \<le> 0 \<and> r = None" and x: "x \<in> set runnable"
  from h have r: "r = None" and pw: "per_workstream a \<le> 0" by simp_all
  from admit_loop_left_out [OF assms(1) [unfolded r] assms(2) pw x]
  show "x \<in> set admitted \<or> t_id x \<in> set (running s')
            \<or> max_workers a \<le> int (length (running s'))" .
next
  assume h: "per_workstream a \<le> 0 \<and> r = None"
    and d: "distinct (map t_id runnable) \<and> set (map t_id runnable) \<inter> set (running s) = {}"
  from h have r: "r = None" and pw: "per_workstream a \<le> 0" by simp_all
  from d have d1: "distinct (map t_id runnable)"
    and d2: "set (map t_id runnable) \<inter> set (running s) = {}" by simp_all
  from admit_loop_take [OF assms(1) [unfolded r] assms(2) pw d1 d2]
  show "admitted = take (nat (max_workers a - int (length (running s)))) runnable" .
next
  fix pre t post
  assume "plan a runnable (active_workstreams payload) [] = pre @ t # post"
  hence "plan a runnable (active_workstreams payload) [] = [] @ pre @ t # post" by simp
  from plan_guards [OF this]
  have g: "int (length pre) < max_workers a
     \<and> (per_workstream a \<le> 0 \<or> t_workstream_id t \<notin> active_workstreams payload \<union> t_workstream_id ` set pre)"
    by simp
  thus "int (length pre) < max_workers a" by simp
  { assume "0 < per_workstream a"
    with g show "t_workstream_id t \<notin> active_workstreams payload" by auto
    from g \<open>0 < per_workstream a\<close> show "t_workstream_id t \<notin> t_workstream_id ` set pre" by auto }
next
  assume "per_workstream a \<le> 0"
  from plan_take [OF this, of runnable "active_workstreams payload" "[]"]
  show "plan a runnable (active_workstreams payload) [] = take (nat (max_workers a)) runnable"
    by simp
qed

theorem admission_pass_witness:
  "\<not> dry_run args0
   \<and> map t_id (snd (fst (admit_loop args0 ''main'' [''q.json''] env0 (ready args0 queue_xxy)
                           (active_workstreams queue_xxy) (initial (world0 queue_xxy)))))
       = [''A'', ''C'']
   \<and> subseq (snd (fst (admit_loop args0 ''main'' [''q.json''] env0 (ready args0 queue_xxy)
                          (active_workstreams queue_xxy) (initial (world0 queue_xxy)))))
        (ready args0 queue_xxy)
   \<and> int (length (running (initial (world0 queue_xxy)))
            + length [make_task 0 (obj_ws ''A'' ''pending'' ''X'')]) < max_workers args0
   \<and> t_workstream_id (make_task 2 (obj_ws ''C'' ''pending'' ''Y'')) \<notin> active_workstreams queue_xxy
   \<and> t_workstream_id (make_task 2 (obj_ws ''C'' ''pending'' ''Y''))
       \<notin> t_workstream_id ` set [make_task 0 (obj_ws ''A'' ''pending'' ''X'')]"
proof -
  let ?X = "admit_loop args0 ''main'' [''q.json''] env0 (ready args0 queue_xxy)
              (active_workstreams queue_xxy) (initial (world0 queue_xxy))"
  have run: "?X = ((fst (fst ?X), snd (fst ?X)), snd ?X)" by simp
  have live: "\<not> dry_run args0" by (simp add: args0_def)
  have pw: "0 < per_workstream args0" by (simp add: args0_def)
  have adm: "snd (fst ?X) = [make_task 0 (obj_ws ''A'' ''pending'' ''X'')]
               @ make_task 2 (obj_ws ''C'' ''pending'' ''Y'') # []"
    by code_simp
  have ids: "map t_id (snd (fst ?X)) = [''A'', ''C'']"
    by code_simp
  note t = admission_pass [OF run live]
  from t have 1: "subseq (snd (fst ?X)) (ready args0 queue_xxy)" by blast
  from t adm pw
  have 2: "int (length (running (initial (world0 queue_xxy)))
            + length [make_task 0 (obj_ws ''A'' ''pending'' ''X'')]) < max_workers args0
     \<and> t_workstream_id (make_task 2 (obj_ws ''C'' ''pending'' ''Y'')) \<notin> active_workstreams queue_xxy
     \<and> t_workstream_id (make_task 2 (obj_ws ''C'' ''pending'' ''Y''))
       \<notin> t_workstream_id ` set [make_task 0 (obj_ws ''A'' ''pending'' ''X'')]"
    by blast
  from live ids 1 2 show ?thesis by blast
qed

section \<open>Success without a commit\<close>

lemma normalize_status_blocked: "normalize_status ''blocked'' = ''blocked''"
  by code_simp

lemma raw_id_blocked_update [simp]: "raw_id (blocked_update now bl st r) = raw_id r"
  by (simp add: blocked_update_def raw_id_def)

lemma raw_status_blocked_update [simp]: "raw_status (blocked_update now bl st r) = ''blocked''"
  by (simp add: blocked_update_def raw_status_def str_or_def normalize_status_blocked)

lemma rt_blockers_blocked_update [simp]: "rt_blockers (blocked_update now bl st r) = Some bl"
  by (simp add: blocked_update_def)

lemma git_commit_paths_commands:
  "commands (wld (snd (git_commit_paths e track message s))) =
     commands (wld s) @ [[''git'', ''add'', ''--''] @ track]
       @ (if fst (git_reply e (commands (wld s)) ([''git'', ''add'', ''--''] @ track)) = 0
             \<and> fst (git_reply e (commands (wld s) @ [[''git'', ''add'', ''--''] @ track])
                     [''git'', ''status'', ''--porcelain=v1'']) = 0
             \<and> snd (git_reply e (commands (wld s) @ [[''git'', ''add'', ''--''] @ track])
                     [''git'', ''status'', ''--porcelain=v1'']) \<noteq> []
          then [[''git'', ''commit'', ''-m'', message]] else [])"
  by (simp add: git_commit_paths_def run_checked_def query_checked_def query_def issue_def)

lemma append_end_entry_frame [simp]:
  "queue_file (wld (append_end_entry a e task_id role wt extra s)) = queue_file (wld s)"
  "commands (wld (append_end_entry a e task_id role wt extra s)) = commands (wld s)"
  "running (append_end_entry a e task_id role wt extra s) = running s"
  "run_files (wld (append_end_entry a e task_id role wt extra s)) = run_files (wld s)"
  by (simp_all add: append_end_entry_def write_session_log_def)

lemma finish_blocked_effect:
  assumes "update_task (queue_file (wld s)) task_id (blocked_update (utc_now e) bl st) = Inr payload"
  shows "queue_file (wld (snd (finish_blocked a track e task_id role wt bl st extra s))) = payload"
    and "commands (wld (snd (finish_blocked a track e task_id role wt bl st extra s))) =
          commands (wld (snd (git_commit_paths e track (''docs: finish '' @ task_id @ '' (blocked)'') s)))"
    and "running (snd (finish_blocked a track e task_id role wt bl st extra s)) = running s"
    and "run_files (wld (snd (finish_blocked a track e task_id role wt bl st extra s))) = run_files (wld s)"
proof -
  let ?s2 = "append_end_entry a e task_id role wt extra (write_queue payload s)"
  let ?m = "''docs: finish '' @ task_id @ '' (blocked)''"
  have fb: "finish_blocked a track e task_id role wt bl st extra s = git_commit_paths e track ?m ?s2"
    using assms by (simp add: finish_blocked_def)
  obtain r s' where g: "git_commit_paths e track ?m ?s2 = (r, s')"
    by (cases "git_commit_paths e track ?m ?s2")
  note f = same_but_commands_fields [OF git_commit_paths_same [OF g]]
  have c: "commands (wld ?s2) = commands (wld s)" by (simp add: write_queue_def)
  show "queue_file (wld (snd (finish_blocked a track e task_id role wt bl st extra s))) = payload"
    using fb g f by (simp add: write_queue_def)
  show "running (snd (finish_blocked a track e task_id role wt bl st extra s)) = running s"
    using fb g f by (simp add: write_queue_def)
  show "run_files (wld (snd (finish_blocked a track e task_id role wt bl st extra s))) = run_files (wld s)"
    using fb g f by (simp add: write_queue_def)
  show "commands (wld (snd (finish_blocked a track e task_id role wt bl st extra s))) =
          commands (wld (snd (git_commit_paths e track ?m s)))"
    unfolding fb git_commit_paths_commands c ..
qed

text \<open>
  The test of lines 634 to 638 as the code makes it. A finished task is found in the queue,
  its DONE sentinel says \<^verbatim>\<open>status=success\<close>, its worktree field is a worktree (not empty,
  not \<^verbatim>\<open>N/A\<close>; the worktree recorded at admission, if any, is that field), a base SHA is
  recorded (in memory or in \<^verbatim>\<open>base_sha.txt\<close>), and \<^verbatim>\<open>git rev-parse\<close> of the branch, the
  last component of the worktree, prints the base SHA or nothing. Then the task's own object
  in the queue file is updated to \<^verbatim>\<open>blocked\<close> with the one blocker
  \<^verbatim>\<open>No commit produced on branch '<branch>' (likely commit failed).\<close>; the only commands
  issued are the \<^verbatim>\<open>git add\<close> of the tracked paths and, when that succeeds and git reports
  changes, the commit with the message \<^verbatim>\<open>docs: finish <task_id> (blocked)\<close>; no
  \<^verbatim>\<open>git worktree remove\<close> is issued, so the worktree stays; and the task leaves \<^verbatim>\<open>running\<close>.
\<close>

theorem no_commit_marks_blocked:
  assumes found: "find (\<lambda>t. t_id t = task_id) (load_tasks (queue_file (wld s))) = Some this"
    and success: "done_status (run_files (wld s) (done_path a task_id)) = ''success''"
    and worktree: "real_worktree (t_worktree this)"
    and recorded: "task_to_worktree s task_id = None
                   \<or> task_to_worktree s task_id = Some (t_worktree this)"
    and base: "recorded_base_sha a task_id s = Inr base_sha"
    and tip: "snd (git_reply e (commands (wld s))
                     [''git'', ''rev-parse'', path_name (t_worktree this)]) = base_sha
              \<or> snd (git_reply e (commands (wld s))
                       [''git'', ''rev-parse'', path_name (t_worktree this)]) = []"
  shows "queue_file (wld (snd (finish_one a base_branch track e task_id s))) =
           (queue_file (wld s))
             [t_index this :=
                blocked_update (utc_now e)
                  [''No commit produced on branch '' @ SQ @ path_name (t_worktree this) @ SQ
                     @ '' (likely commit failed).'']
                  [''Inspect '' @ last_message_path a task_id, ''Inspect '' @ log_path a task_id,
                   ''Re-run the task with a less-restrictive codex sandbox.'']
                  (queue_file (wld s) ! t_index this)]
   \<and> raw_id (queue_file (wld s) ! t_index this) = task_id
   \<and> raw_status (queue_file (wld (snd (finish_one a base_branch track e task_id s))) ! t_index this)
       = ''blocked''
   \<and> rt_blockers (queue_file (wld (snd (finish_one a base_branch track e task_id s))) ! t_index this)
       = Some [''No commit produced on branch '' @ SQ @ path_name (t_worktree this) @ SQ
                 @ '' (likely commit failed).'']
   \<and> commands (wld (snd (finish_one a base_branch track e task_id s))) =
       commands (wld s) @ [[''git'', ''add'', ''--''] @ track]
         @ (if fst (git_reply e (commands (wld s)) ([''git'', ''add'', ''--''] @ track)) = 0
               \<and> fst (git_reply e (commands (wld s) @ [[''git'', ''add'', ''--''] @ track])
                       [''git'', ''status'', ''--porcelain=v1'']) = 0
               \<and> snd (git_reply e (commands (wld s) @ [[''git'', ''add'', ''--''] @ track])
                       [''git'', ''status'', ''--porcelain=v1'']) \<noteq> []
            then [[''git'', ''commit'', ''-m'', ''docs: finish '' @ task_id @ '' (blocked)'']]
            else [])
   \<and> [''git'', ''worktree'', ''remove'', ''--force'',
        resolve (path_join (repo_root a) (t_worktree this))]
       \<notin> set (drop (length (commands (wld s)))
                 (commands (wld (snd (finish_one a base_branch track e task_id s)))))
   \<and> running (snd (finish_one a base_branch track e task_id s)) = removeAll task_id (running s)"
proof -
  let ?s = "s\<lparr> running := removeAll task_id (running s) \<rparr>"
  let ?bl = "[''No commit produced on branch '' @ SQ @ path_name (t_worktree this) @ SQ
                     @ '' (likely commit failed).'']"
  let ?st = "[''Inspect '' @ last_message_path a task_id, ''Inspect '' @ log_path a task_id,
                   ''Re-run the task with a less-restrictive codex sandbox.'']"
  let ?q = "queue_file (wld s)"
  have wt0: "(case task_to_worktree s task_id of
                   Some w \<Rightarrow> w
                 | None \<Rightarrow> t_worktree this) = t_worktree this"
    using recorded by auto
  have "recorded_base_sha a task_id ?s = recorded_base_sha a task_id s"
    by (simp add: recorded_base_sha_def)
  with base have base': "recorded_base_sha a task_id ?s = Inr base_sha"
    by simp
  have tip': "snd (query e ?s [''git'', ''rev-parse'', path_name (t_worktree this)]) = []
      \<or> snd (query e ?s [''git'', ''rev-parse'', path_name (t_worktree this)]) = base_sha"
    using tip by (auto simp: query_def)
  have wtne: "t_worktree this \<noteq> []"
    using worktree by (simp add: real_worktree_def)
  have fo: "finish_one a base_branch track e task_id s =
      finish_blocked a track e task_id (role_label (t_type this)) (t_worktree this) ?bl ?st
        [''- Orchestrator: marked task blocked (no commit produced)''] ?s"
    using found success worktree recorded base' tip' wtne
    by (auto simp: finish_one_def Let_def)
  have upd: "update_task (queue_file (wld ?s)) task_id (blocked_update (utc_now e) ?bl ?st)
      = Inr (?q[t_index this := blocked_update (utc_now e) ?bl ?st (?q ! t_index this)])"
    using update_task_found [OF found] by simp
  note fb = finish_blocked_effect [OF upd, of a track "role_label (t_type this)" "t_worktree this"
      "[''- Orchestrator: marked task blocked (no commit produced)'']"]
  note fl = find_load_tasks [OF found]
  have q: "queue_file (wld (snd (finish_one a base_branch track e task_id s))) =
      ?q[t_index this := blocked_update (utc_now e) ?bl ?st (?q ! t_index this)]"
    unfolding fo by (rule fb(1))
  have c: "commands (wld (snd (finish_one a base_branch track e task_id s))) =
       commands (wld s) @ [[''git'', ''add'', ''--''] @ track]
         @ (if fst (git_reply e (commands (wld s)) ([''git'', ''add'', ''--''] @ track)) = 0
               \<and> fst (git_reply e (commands (wld s) @ [[''git'', ''add'', ''--''] @ track])
                       [''git'', ''status'', ''--porcelain=v1'']) = 0
               \<and> snd (git_reply e (commands (wld s) @ [[''git'', ''add'', ''--''] @ track])
                       [''git'', ''status'', ''--porcelain=v1'']) \<noteq> []
            then [[''git'', ''commit'', ''-m'', ''docs: finish '' @ task_id @ '' (blocked)'']]
            else [])"
    unfolding fo fb(2) git_commit_paths_commands by simp
  have r: "running (snd (finish_one a base_branch track e task_id s)) = removeAll task_id (running s)"
    unfolding fo fb(3) by simp
  have nr: "[''git'', ''worktree'', ''remove'', ''--force'',
        resolve (path_join (repo_root a) (t_worktree this))]
       \<notin> set (drop (length (commands (wld s)))
                 (commands (wld (snd (finish_one a base_branch track e task_id s)))))"
    unfolding c by simp
  from q c r nr fl(1,2) show ?thesis
    by simp
qed

theorem no_commit_marks_blocked_witness:
  "find (\<lambda>t. t_id t = ''A'') (load_tasks (queue_file (wld state_done))) = Some (make_task 0 task_wt)
   \<and> done_status (run_files (wld state_done) (done_path args0 ''A'')) = ''success''
   \<and> real_worktree (t_worktree (make_task 0 task_wt))
   \<and> task_to_worktree state_done ''A'' = Some (t_worktree (make_task 0 task_wt))
   \<and> recorded_base_sha args0 ''A'' state_done = Inr ''sha''
   \<and> raw_status (queue_file (wld (snd (finish_one args0 ''main'' [''q.json''] env0 ''A'' state_done))) ! 0)
       = ''blocked''
   \<and> rt_blockers (queue_file (wld (snd (finish_one args0 ''main'' [''q.json''] env0 ''A'' state_done))) ! 0)
       = Some [''No commit produced on branch '' @ SQ @ ''A'' @ SQ @ '' (likely commit failed).'']
   \<and> commands (wld (snd (finish_one args0 ''main'' [''q.json''] env0 ''A'' state_done)))
       = [[''git'', ''add'', ''--'', ''q.json''],
          [''git'', ''commit'', ''-m'', ''docs: finish A (blocked)'']]
   \<and> running (snd (finish_one args0 ''main'' [''q.json''] env0 ''A'' state_done)) = []"
proof -
  let ?t0 = "make_task 0 task_wt"
  have found: "find (\<lambda>t. t_id t = ''A'') (load_tasks (queue_file (wld state_done))) = Some ?t0"
    by code_simp
  have success: "done_status (run_files (wld state_done) (done_path args0 ''A'')) = ''success''"
    by code_simp
  have worktree: "real_worktree (t_worktree ?t0)"
    by code_simp
  have rec: "task_to_worktree state_done ''A'' = Some (t_worktree ?t0)"
    by code_simp
  hence recorded: "task_to_worktree state_done ''A'' = None
                   \<or> task_to_worktree state_done ''A'' = Some (t_worktree ?t0)" by simp
  have base: "recorded_base_sha args0 ''A'' state_done = Inr ''sha''"
    by code_simp
  have tip: "snd (git_reply env0 (commands (wld state_done))
                     [''git'', ''rev-parse'', path_name (t_worktree ?t0)]) = ''sha''
              \<or> snd (git_reply env0 (commands (wld state_done))
                       [''git'', ''rev-parse'', path_name (t_worktree ?t0)]) = []"
    by (simp add: env0_def)
  have pn: "path_name (t_worktree ?t0) = ''A''" by code_simp
  have cm: "commands (wld state_done) = []" by code_simp
  have rn: "running state_done = [''A'']" by code_simp
  note t = no_commit_marks_blocked [OF found success worktree recorded base tip,
      of "''main''" "[''q.json'']"]
  note t3 = t [THEN conjunct2, THEN conjunct2, THEN conjunct1]
  note t4 = t [THEN conjunct2, THEN conjunct2, THEN conjunct2, THEN conjunct1]
  note t5 = t [THEN conjunct2, THEN conjunct2, THEN conjunct2, THEN conjunct2, THEN conjunct1]
  note t7 = t [THEN conjunct2, THEN conjunct2, THEN conjunct2, THEN conjunct2, THEN conjunct2,
      THEN conjunct2]
  from t3 have 1: "raw_status (queue_file (wld (snd (finish_one args0 ''main'' [''q.json''] env0 ''A'' state_done))) ! 0)
       = ''blocked''" by simp
  from t4 pn have 2: "rt_blockers (queue_file (wld (snd (finish_one args0 ''main'' [''q.json''] env0 ''A'' state_done))) ! 0)
       = Some [''No commit produced on branch '' @ SQ @ ''A'' @ SQ @ '' (likely commit failed).'']"
    by simp
  from t5 cm have 3: "commands (wld (snd (finish_one args0 ''main'' [''q.json''] env0 ''A'' state_done)))
       = [[''git'', ''add'', ''--'', ''q.json''],
          [''git'', ''commit'', ''-m'', ''docs: finish A (blocked)'']]"
    by (simp add: env0_def)
  from t7 rn have 4: "running (snd (finish_one args0 ''main'' [''q.json''] env0 ''A'' state_done)) = []"
    by simp
  from found success worktree rec base 1 2 3 4 show ?thesis by blast
qed

text \<open>
  C2 asks for the same outcome when the branch cannot be resolved. \<^verbatim>\<open>_run\<close> is called with
  \<^verbatim>\<open>check=False\<close> and line 637 reads only the output, of which line 638 tests whether it
  is empty or the base SHA. For a name it cannot resolve \<^verbatim>\<open>git rev-parse\<close> returns 128 and
  prints the name. With that reply the task of \<open>state_done\<close> (sentinel \<^verbatim>\<open>status=success\<close>,
  worktree \<^verbatim>\<open>work/A\<close>, base SHA recorded) is set to \<^verbatim>\<open>completed\<close> without blockers, the
  commit message is \<^verbatim>\<open>docs: finish A\<close>, and the worktree is removed.
\<close>

theorem unresolved_branch_is_completed:
  "done_status (run_files (wld state_done) (done_path args0 ''A'')) = ''success''
   \<and> real_worktree (t_worktree (make_task 0 task_wt))
   \<and> recorded_base_sha args0 ''A'' state_done = Inr ''sha''
   \<and> git_reply env_unresolved (commands (wld state_done)) [''git'', ''rev-parse'', ''A'']
       = (128, ''A'')
   \<and> raw_status (queue_file (wld (snd (finish_one args0 ''main'' [''q.json''] env_unresolved ''A''
                                         state_done))) ! 0) = ''completed''
   \<and> rt_blockers (queue_file (wld (snd (finish_one args0 ''main'' [''q.json''] env_unresolved ''A''
                                          state_done))) ! 0) = None
   \<and> commands (wld (snd (finish_one args0 ''main'' [''q.json''] env_unresolved ''A'' state_done)))
       = [[''git'', ''add'', ''--'', ''q.json''],
          [''git'', ''commit'', ''-m'', ''docs: finish A''],
          [''git'', ''worktree'', ''remove'', ''--force'', ''/r/work/A'']]"
  by code_simp

section \<open>A worker that exits without a sentinel\<close>

text \<open>
  C1 asks that, after the tick, the task is blocked with the one blocker
  \<^verbatim>\<open>Worker exited without writing DONE sentinel.\<close> The loop over the running tasks writes
  \<^verbatim>\<open>failure.md\<close> with the tail of the log and that blocker, and lists the task as finished;
  the loop over the finished tasks then finds no sentinel, reads the status as unknown and
  writes the task again, with the blocker \<^verbatim>\<open>Worker status=unknown (see .runs).\<close> in place
  of the first. The status stays \<^verbatim>\<open>blocked\<close> and \<^verbatim>\<open>failure.md\<close> is as claimed.
\<close>

theorem missing_sentinel_blocker_is_overwritten:
  "fst (tick args0 ''main'' [''q.json''] env_exited state_crashed) = Running
   \<and> run_files (wld (snd (tick args0 ''main'' [''q.json''] env_exited state_crashed)))
         ''/r/.runs/A/failure.md''
       = Some (failure_text ''T'' (''one'' @ NL @ ''two'' @ NL))
   \<and> rt_blockers (queue_file (wld (snd (detect_loop args0 env_exited [''A''] state_crashed))) ! 0)
       = Some [''Worker exited without writing DONE sentinel.'']
   \<and> raw_status (queue_file (wld (snd (tick args0 ''main'' [''q.json''] env_exited state_crashed))) ! 0)
       = ''blocked''
   \<and> rt_blockers (queue_file (wld (snd (tick args0 ''main'' [''q.json''] env_exited state_crashed))) ! 0)
       = Some [''Worker status=unknown (see .runs).'']
   \<and> rt_unblock_steps
         (queue_file (wld (snd (tick args0 ''main'' [''q.json''] env_exited state_crashed))) ! 0)
       = Some [''Inspect /r/.runs/A/worker.log'', ''Inspect /r/.runs/A/A.done'',
               ''Adjust prompt and rerun.'']"
  by code_simp

section \<open>What a tick does to the queue\<close>

lemma changes_only_refl [simp]: "changes_only T q q"
  by (simp add: changes_only_def)

lemma keeps_refl [simp]: "keeps q q"
  by (simp add: keeps_def)

lemma changes_only_trans:
  assumes "changes_only T q q1" "changes_only T q1 q2"
  shows "changes_only T q q2"
  using assms unfolding changes_only_def by (metis (no_types, lifting))

lemma changes_only_mono: "changes_only T q q' \<Longrightarrow> T \<subseteq> T' \<Longrightarrow> changes_only T' q q'"
  unfolding changes_only_def by blast

lemma keeps_trans:
  assumes "keeps q q1" "keeps q1 q2"
  shows "keeps q q2"
  using assms unfolding keeps_def by (metis (no_types, lifting))

lemma changes_only_map_raw_id: "changes_only T q q' \<Longrightarrow> map raw_id q' = map raw_id q"
  unfolding changes_only_def by (auto intro: nth_equalityI)

lemma patched_open_patched: "patched_open task_id q q' \<Longrightarrow> patched task_id q q'"
  unfolding patched_open_def patched_def by blast

lemma patched_changes_only:
  assumes "patched task_id q q'"
  shows "changes_only {task_id} q q'"
proof (cases "q' = q")
  case True
  then show ?thesis by simp
next
  case False
  with assms obtain upd where upd: "\<forall>r. raw_id (upd r) = raw_id r"
    "update_task q task_id upd = Inr q'"
    unfolding patched_def by blast
  from upd(2) obtain i where i: "i < length q" "raw_id (q ! i) = task_id"
    "q' = q[i := upd (q ! i)]"
    unfolding update_task_Inr by blast
  show ?thesis
    unfolding changes_only_def using i upd(1) by (auto simp: nth_list_update)
qed

lemma patched_keeps:
  assumes "patched task_id q q'" "not_completed q task_id"
  shows "keeps q q'"
proof (cases "q' = q")
  case True
  then show ?thesis by simp
next
  case False
  with assms obtain upd where upd: "\<forall>r. raw_id (upd r) = raw_id r"
    "update_task q task_id upd = Inr q'"
    unfolding patched_def by blast
  from upd(2) obtain i where i: "i < length q" "raw_id (q ! i) = task_id"
    "q' = q[i := upd (q ! i)]"
    unfolding update_task_Inr by blast
  from assms(2) i(1,2) have "raw_status (q ! i) \<noteq> ''completed''"
    unfolding not_completed_def list_all_length by auto
  thus ?thesis
    unfolding keeps_def using i by (auto simp: nth_list_update)
qed

lemma patched_not_completed_other:
  assumes "patched task_id q q'" "other \<noteq> task_id" "not_completed q other"
  shows "not_completed q' other"
proof (cases "q' = q")
  case True
  with assms show ?thesis by simp
next
  case False
  with assms obtain upd where upd: "\<forall>r. raw_id (upd r) = raw_id r"
    "update_task q task_id upd = Inr q'"
    unfolding patched_def by blast
  from upd(2) obtain i where i: "i < length q" "raw_id (q ! i) = task_id"
    "q' = q[i := upd (q ! i)]"
    unfolding update_task_Inr by blast
  show ?thesis
    unfolding not_completed_def list_all_length
  proof (intro allI impI)
    fix j assume j: "j < length q'"
    show "raw_id (q' ! j) \<noteq> other \<or> raw_status (q' ! j) \<noteq> ''completed''"
    proof (cases "j = i")
      case True
      with i upd(1) assms(2) show ?thesis by simp
    next
      case False
      with i j have "q' ! j = q ! j" "j < length q" by simp_all
      with assms(3) show ?thesis
        unfolding not_completed_def list_all_length by auto
    qed
  qed
qed

lemma patched_open_not_completed:
  assumes "patched_open task_id q q'" "not_completed q other"
  shows "not_completed q' other"
proof (cases "q' = q")
  case True
  with assms show ?thesis by simp
next
  case False
  with assms obtain upd where upd: "\<forall>r. raw_id (upd r) = raw_id r"
    "\<forall>r. raw_status (upd r) \<noteq> ''completed''"
    "update_task q task_id upd = Inr q'"
    unfolding patched_open_def by blast
  from upd(3) obtain i where i: "i < length q" "raw_id (q ! i) = task_id"
    "q' = q[i := upd (q ! i)]"
    unfolding update_task_Inr by blast
  show ?thesis
    unfolding not_completed_def list_all_length
  proof (intro allI impI)
    fix j assume j: "j < length q'"
    show "raw_id (q' ! j) \<noteq> other \<or> raw_status (q' ! j) \<noteq> ''completed''"
    proof (cases "j = i")
      case True
      with i upd(2) show ?thesis by simp
    next
      case False
      with i j have "q' ! j = q ! j" "j < length q" by simp_all
      with assms(2) show ?thesis
        unfolding not_completed_def list_all_length by auto
    qed
  qed
qed

lemma normalize_status_in_progress: "normalize_status ''in_progress'' = ''in_progress''"
  by code_simp

lemma raw_id_start_update [simp]: "raw_id (start_update now r) = raw_id r"
  by (simp add: start_update_def raw_id_def)

lemma raw_status_start_update [simp]: "raw_status (start_update now r) = ''in_progress''"
  by (simp add: start_update_def raw_status_def str_or_def normalize_status_in_progress)

lemma raw_id_completed_update [simp]: "raw_id (completed_update now r) = raw_id r"
  by (simp add: completed_update_def raw_id_def)

lemma admit_one_patched:
  assumes "admit_one a base_branch track e t s = (r, s')"
  shows "patched_open (t_id t) (queue_file (wld s)) (queue_file (wld s'))"
  using admit_one_effect(2) [OF assms] unfolding patched_open_def
  by (auto intro: exI [of _ "start_update (utc_now e)"])

lemma detect_one_effect:
  assumes "detect_one a e task_id s = (r, s')"
  shows "running s' = running s"
    and "patched_open task_id (queue_file (wld s)) (queue_file (wld s'))"
proof -
  have "running s' = running s
      \<and> (queue_file (wld s') = queue_file (wld s)
         \<or> update_task (queue_file (wld s)) task_id
              (blocked_update (utc_now e)
                      [''Worker exited without writing DONE sentinel.'']
                      [''Inspect '' @ log_path a task_id,
                       ''Inspect '' @ failure_path a task_id,
                       ''Re-run task with revised prompt.'']) = Inr (queue_file (wld s')))"
    using assms
    by (auto simp: detect_one_def Let_def prim_defs split: if_splits sum.splits)
  thus "running s' = running s"
    and "patched_open task_id (queue_file (wld s)) (queue_file (wld s'))"
    unfolding patched_open_def
    by (auto intro: exI [of _ "blocked_update (utc_now e)
                      [''Worker exited without writing DONE sentinel.'']
                      [''Inspect '' @ log_path a task_id,
                       ''Inspect '' @ failure_path a task_id,
                       ''Re-run task with revised prompt.'']"])
qed

lemma finish_blocked_patched:
  assumes "finish_blocked a track e task_id role wt bl st extra s = (r, s')"
  shows "running s' = running s"
    and "patched_open task_id (queue_file (wld s)) (queue_file (wld s'))"
proof -
  have "running s' = running s
      \<and> patched_open task_id (queue_file (wld s)) (queue_file (wld s'))"
  proof (cases "update_task (queue_file (wld s)) task_id (blocked_update (utc_now e) bl st)")
    case (Inl err)
    with assms show ?thesis by (auto simp: finish_blocked_def patched_open_def)
  next
    case (Inr payload)
    from finish_blocked_effect [OF Inr, of a track role wt extra] assms
    have "queue_file (wld s') = payload" "running s' = running s" by simp_all
    with Inr show ?thesis
      unfolding patched_open_def
      by (auto intro: exI [of _ "blocked_update (utc_now e) bl st"])
  qed
  thus "running s' = running s"
    and "patched_open task_id (queue_file (wld s)) (queue_file (wld s'))"
    by simp_all
qed

lemma finish_completed_patched:
  assumes "finish_completed a track e task_id role wt extra s = (r, s')"
  shows "running s' = running s"
    and "patched task_id (queue_file (wld s)) (queue_file (wld s'))"
proof -
  have "running s' = running s
      \<and> patched task_id (queue_file (wld s)) (queue_file (wld s'))"
  proof (cases "update_task (queue_file (wld s)) task_id (completed_update (utc_now e))")
    case (Inl err)
    with assms show ?thesis by (auto simp: finish_completed_def patched_def)
  next
    case (Inr payload)
    let ?s2 = "write_queue payload (append_end_entry a e task_id role wt extra s)"
    obtain r1 s1 where g: "git_commit_paths e track (''docs: finish '' @ task_id) ?s2 = (r1, s1)"
      by (cases "git_commit_paths e track (''docs: finish '' @ task_id) ?s2")
    note f = same_but_commands_fields [OF git_commit_paths_same [OF g]]
    have s1: "running s1 = running s" "queue_file (wld s1) = payload"
      using f by (simp_all add: write_queue_def)
    note rw = same_but_commands_fields [OF remove_worktree_same [of s1 a e wt]]
    from assms Inr g have "s' = s1 \<or> s' = remove_worktree a e wt s1"
      by (auto simp: finish_completed_def split: option.splits if_splits)
    with s1 rw have "running s' = running s" "queue_file (wld s') = payload" by auto
    with Inr show ?thesis
      unfolding patched_def
      by (auto intro: exI [of _ "completed_update (utc_now e)"])
  qed
  thus "running s' = running s"
    and "patched task_id (queue_file (wld s)) (queue_file (wld s'))"
    by simp_all
qed

lemma finish_success_patched:
  assumes "finish_success a base_branch track e task_id this role wt s = (r, s')"
  shows "running s' = running s"
    and "patched task_id (queue_file (wld s)) (queue_file (wld s'))"
proof -
  have "running s' = running s
      \<and> patched task_id (queue_file (wld s)) (queue_file (wld s'))"
  proof (cases "(case this of None \<Rightarrow> False | Some t \<Rightarrow> lower (strip (t_type t)) = ''integration'')
         \<and> wt \<noteq> []")
    case False
    with assms have "finish_completed a track e task_id role wt [] s = (r, s')"
      by (simp add: finish_success_def)
    from finish_completed_patched [OF this] show ?thesis by simp
  next
    case True
    obtain rc s1 where m: "fast_forward_merge e base_branch (path_name wt) s = (rc, s1)"
      by (cases "fast_forward_merge e base_branch (path_name wt) s")
    note f = same_but_commands_fields [OF fast_forward_merge_same [OF m]]
    show ?thesis
    proof (cases rc)
      case None
      with assms True m obtain extra where
        "finish_completed a track e task_id role wt extra s1 = (r, s')"
        by (auto simp: finish_success_def)
      from finish_completed_patched [OF this] f show ?thesis by simp
    next
      case (Some code)
      with assms True m obtain bl st extra where
        "finish_blocked a track e task_id role wt bl st extra s1 = (r, s')"
        by (auto simp: finish_success_def)
      from finish_blocked_patched [OF this] f show ?thesis
        by (simp add: patched_open_patched)
    qed
  qed
  thus "running s' = running s"
    and "patched task_id (queue_file (wld s)) (queue_file (wld s'))"
    by simp_all
qed

lemma finish_one_patched:
  assumes "finish_one a base_branch track e task_id s = (r, s')"
  shows "running s' = removeAll task_id (running s)"
    and "patched task_id (queue_file (wld s)) (queue_file (wld s'))"
proof -
  let ?s = "s\<lparr> running := removeAll task_id (running s) \<rparr>"
  have s: "running ?s = removeAll task_id (running s)" "queue_file (wld ?s) = queue_file (wld s)"
    by simp_all
  from assms have "(\<exists>role wt bl st extra. finish_blocked a track e task_id role wt bl st extra ?s = (r, s'))
      \<or> (\<exists>this role wt. finish_success a base_branch track e task_id this role wt ?s = (r, s'))
      \<or> s' = ?s"
    unfolding finish_one_def Let_def
    by (auto split: if_splits sum.splits simp: recorded_base_sha_def)
  hence "running s' = removeAll task_id (running s)
      \<and> patched task_id (queue_file (wld s)) (queue_file (wld s'))"
  proof (elim disjE exE)
    fix role wt bl st extra
    assume "finish_blocked a track e task_id role wt bl st extra ?s = (r, s')"
    from finish_blocked_patched [OF this] s show ?thesis
      by (simp add: patched_open_patched)
  next
    fix this role wt
    assume "finish_success a base_branch track e task_id this role wt ?s = (r, s')"
    from finish_success_patched [OF this] s show ?thesis by simp
  next
    assume "s' = ?s"
    thus ?thesis by (simp add: patched_def)
  qed
  thus "running s' = removeAll task_id (running s)"
    and "patched task_id (queue_file (wld s)) (queue_file (wld s'))"
    by simp_all
qed

lemma open_phase_refl [simp]: "open_phase T q q"
  by (simp add: open_phase_def)

lemma open_phase_step:
  assumes "patched_open task_id q q'" "task_id \<in> T"
  shows "open_phase T q q'"
  unfolding open_phase_def
proof (intro conjI allI impI)
  show "changes_only T q q'"
    using patched_changes_only [OF patched_open_patched [OF assms(1)]] assms(2)
    by (auto intro: changes_only_mono)
next
  fix x assume "not_completed q x"
  with assms(1) show "not_completed q' x" by (rule patched_open_not_completed)
next
  assume "\<forall>x \<in> T. not_completed q x"
  with assms(2) have "not_completed q task_id" by blast
  with patched_open_patched [OF assms(1)] show "keeps q q'" by (rule patched_keeps)
qed

lemma open_phase_trans:
  assumes "open_phase T q q1" "open_phase T q1 q2"
  shows "open_phase T q q2"
  unfolding open_phase_def
proof (intro conjI allI impI)
  show "changes_only T q q2"
    using assms unfolding open_phase_def by (blast intro: changes_only_trans)
next
  fix x assume "not_completed q x"
  with assms show "not_completed q2 x" unfolding open_phase_def by blast
next
  assume a: "\<forall>x \<in> T. not_completed q x"
  with assms(1) have "keeps q q1" and "\<forall>x \<in> T. not_completed q1 x"
    unfolding open_phase_def by blast+
  with assms(2) have "keeps q1 q2" unfolding open_phase_def by blast
  with \<open>keeps q q1\<close> show "keeps q q2" by (rule keeps_trans)
qed

lemma open_phase_mono:
  assumes "open_phase T q q'" "T \<subseteq> T'"
  shows "open_phase T' q q'"
  using assms unfolding open_phase_def by (blast intro: changes_only_mono)

lemma admit_loop_queue:
  assumes "admit_loop a base_branch track e ts active s = ((r, admitted), s')"
  shows "open_phase (t_id ` set ts) (queue_file (wld s)) (queue_file (wld s'))
       \<and> set (running s') \<subseteq> set (running s) \<union> t_id ` set ts
       \<and> (distinct (running s) \<longrightarrow> distinct (running s'))"
  using assms
proof (induction ts arbitrary: active s r admitted s')
  case Nil
  then show ?case by simp
next
  case (Cons t ts)
  have mono: "t_id ` set ts \<subseteq> t_id ` set (t # ts)" by auto
  show ?case
  proof (cases "t_id t \<in> set (running s)
      \<or> (per_workstream a > 0 \<and> t_workstream_id t \<in> active \<and> int (length (running s)) < max_workers a)")
    case True
    with Cons.prems have "admit_loop a base_branch track e ts active s = ((r, admitted), s')"
      by (auto split: if_splits)
    from Cons.IH [OF this] mono show ?thesis
      by (auto intro: open_phase_mono)
  next
    case skip: False
    show ?thesis
    proof (cases "int (length (running s)) \<ge> max_workers a")
      case True
      with Cons.prems skip show ?thesis by auto
    next
      case False
      obtain r1 s1 where a1: "admit_one a base_branch track e t s = (r1, s1)"
        by (cases "admit_one a base_branch track e t s")
      obtain r2 adm2 s2 where a2: "admit_loop a base_branch track e ts
          (insert (t_workstream_id t) active) s1 = ((r2, adm2), s2)"
        by (cases "admit_loop a base_branch track e ts (insert (t_workstream_id t) active) s1") auto
      have step: "open_phase (t_id ` set (t # ts)) (queue_file (wld s)) (queue_file (wld s1))"
        by (rule open_phase_step [OF admit_one_patched [OF a1]]) simp
      from admit_one_effect(1) [OF a1]
      have run1: "running s1 = running s \<or> running s1 = running s @ [t_id t]"
        by (auto split: if_splits)
      with skip have d1: "distinct (running s) \<longrightarrow> distinct (running s1)"
        and sub1: "set (running s1) \<subseteq> set (running s) \<union> t_id ` set (t # ts)" by auto
      from Cons.prems skip False a1 a2 have "s' = s1 \<or> s' = s2"
        by (auto split: option.splits)
      thus ?thesis
      proof
        assume "s' = s1"
        with step d1 sub1 show ?thesis by simp
      next
        assume "s' = s2"
        from Cons.IH [OF a2] mono
        have "open_phase (t_id ` set (t # ts)) (queue_file (wld s1)) (queue_file (wld s2))"
          and "set (running s2) \<subseteq> set (running s1) \<union> t_id ` set ts"
          and "distinct (running s1) \<longrightarrow> distinct (running s2)"
          by (auto intro: open_phase_mono)
        with step d1 sub1 \<open>s' = s2\<close> show ?thesis
          by (auto intro: open_phase_trans)
      qed
    qed
  qed
qed

lemma detect_loop_queue:
  assumes "detect_loop a e ids s = (r, s')"
  shows "open_phase (set ids) (queue_file (wld s)) (queue_file (wld s'))
       \<and> running s' = running s
       \<and> (case r of Inl err \<Rightarrow> True | Inr finished \<Rightarrow> subseq finished ids)"
  using assms
proof (induction ids arbitrary: s r s')
  case Nil
  then show ?case by auto
next
  case (Cons x ids)
  have mono: "set ids \<subseteq> set (x # ids)" by auto
  obtain r1 s1 where d1: "detect_one a e x s = (r1, s1)"
    by (cases "detect_one a e x s")
  have step: "open_phase (set (x # ids)) (queue_file (wld s)) (queue_file (wld s1))"
    by (rule open_phase_step [OF detect_one_effect(2) [OF d1]]) simp
  note run1 = detect_one_effect(1) [OF d1]
  show ?case
  proof (cases r1)
    case (Inl err)
    with Cons.prems d1 have "s' = s1" "r = Inl err" by auto
    with step run1 show ?thesis by simp
  next
    case (Inr fin)
    obtain r2 s2 where d2: "detect_loop a e ids s1 = (r2, s2)"
      by (cases "detect_loop a e ids s1")
    from Cons.IH [OF d2] mono
    have ih: "open_phase (set (x # ids)) (queue_file (wld s1)) (queue_file (wld s2))"
      "running s2 = running s1"
      "case r2 of Inl err \<Rightarrow> True | Inr finished \<Rightarrow> subseq finished ids"
      by (auto intro: open_phase_mono)
    from Cons.prems d1 Inr d2 have s': "s' = s2"
      and r: "r = (case r2 of Inl err \<Rightarrow> Inl err
                   | Inr finished \<Rightarrow> Inr (if fin then x # finished else finished))"
      by (auto split: sum.splits)
    from ih(3) r have "case r of Inl err \<Rightarrow> True | Inr finished \<Rightarrow> subseq finished (x # ids)"
      by (auto split: sum.splits)
    with step ih(1,2) run1 s' show ?thesis
      by (auto intro: open_phase_trans)
  qed
qed

lemma finish_loop_queue:
  assumes "finish_loop a base_branch track e fin s = (r, s')"
  shows "changes_only (set fin) (queue_file (wld s)) (queue_file (wld s'))
       \<and> set (running s') \<subseteq> set (running s)
       \<and> (distinct (running s) \<longrightarrow> distinct (running s'))
       \<and> (distinct fin \<and> (\<forall>x \<in> set fin \<union> set (running s). not_completed (queue_file (wld s)) x)
            \<longrightarrow> keeps (queue_file (wld s)) (queue_file (wld s'))
                \<and> (\<forall>x \<in> set (running s'). not_completed (queue_file (wld s')) x))"
  using assms
proof (induction fin arbitrary: s r s')
  case Nil
  then show ?case by simp
next
  case (Cons x fin)
  obtain r1 s1 where f1: "finish_one a base_branch track e x s = (r1, s1)"
    by (cases "finish_one a base_branch track e x s")
  note p = finish_one_patched [OF f1]
  have o1: "changes_only (set (x # fin)) (queue_file (wld s)) (queue_file (wld s1))"
    using patched_changes_only [OF p(2)] by (auto intro: changes_only_mono)
  have sub1: "set (running s1) \<subseteq> set (running s)" "distinct (running s) \<longrightarrow> distinct (running s1)"
    using p(1) by (auto simp: distinct_removeAll)
  have k1: "keeps (queue_file (wld s)) (queue_file (wld s1))
            \<and> (\<forall>y \<in> set fin \<union> set (running s1). not_completed (queue_file (wld s1)) y)"
    if h: "distinct (x # fin)"
      "\<forall>y \<in> set (x # fin) \<union> set (running s). not_completed (queue_file (wld s)) y"
  proof
    from h(2) have "not_completed (queue_file (wld s)) x" by simp
    with p(2) show "keeps (queue_file (wld s)) (queue_file (wld s1))" by (rule patched_keeps)
    show "\<forall>y \<in> set fin \<union> set (running s1). not_completed (queue_file (wld s1)) y"
    proof
      fix y assume y: "y \<in> set fin \<union> set (running s1)"
      with h(1) p(1) have "y \<noteq> x" by auto
      moreover from y h(2) sub1(1) have "not_completed (queue_file (wld s)) y" by auto
      ultimately show "not_completed (queue_file (wld s1)) y"
        using p(2) by (auto intro: patched_not_completed_other)
    qed
  qed
  show ?case
  proof (cases r1)
    case (Some err)
    with Cons.prems f1 have "s' = s1" by simp
    with o1 sub1 k1 show ?thesis by auto
  next
    case None
    with Cons.prems f1 have f2: "finish_loop a base_branch track e fin s1 = (r, s')" by simp
    from Cons.IH [OF f2]
    have ih: "changes_only (set fin) (queue_file (wld s1)) (queue_file (wld s'))"
      "set (running s') \<subseteq> set (running s1)"
      "distinct (running s1) \<longrightarrow> distinct (running s')"
      "distinct fin \<and> (\<forall>x \<in> set fin \<union> set (running s1). not_completed (queue_file (wld s1)) x)
            \<longrightarrow> keeps (queue_file (wld s1)) (queue_file (wld s'))
                \<and> (\<forall>x \<in> set (running s'). not_completed (queue_file (wld s')) x)"
      by blast+
    have "changes_only (set (x # fin)) (queue_file (wld s)) (queue_file (wld s'))"
      using o1 ih(1) by (auto intro: changes_only_trans changes_only_mono)
    moreover have "set (running s') \<subseteq> set (running s)" using sub1 ih(2) by auto
    moreover have "distinct (running s) \<longrightarrow> distinct (running s')" using sub1 ih(3) by auto
    moreover have "keeps (queue_file (wld s)) (queue_file (wld s'))
                \<and> (\<forall>x \<in> set (running s'). not_completed (queue_file (wld s')) x)"
      if h: "distinct (x # fin)"
        "\<forall>y \<in> set (x # fin) \<union> set (running s). not_completed (queue_file (wld s)) y"
    proof -
      from k1 [OF h] have k: "keeps (queue_file (wld s)) (queue_file (wld s1))"
        and n: "\<forall>y \<in> set fin \<union> set (running s1). not_completed (queue_file (wld s1)) y"
        by blast+
      from h(1) have "distinct fin" by simp
      with ih(4) n have "keeps (queue_file (wld s1)) (queue_file (wld s'))"
        and "\<forall>x \<in> set (running s'). not_completed (queue_file (wld s')) x" by blast+
      with k show ?thesis by (auto intro: keeps_trans)
    qed
    ultimately show ?thesis by blast
  qed
qed

lemma running_print_line [simp]: "running (print_line l s) = running s"
  by (simp add: print_line_def)

lemma running_fold_print: "running (fold (\<lambda>t. print_line (f t)) ts s) = running s"
  by (induction ts arbitrary: s) simp_all

lemma distinct_subseq: "subseq xs ys \<Longrightarrow> distinct ys \<Longrightarrow> distinct xs"
  by (induction rule: list_emb.induct) (auto dest: list_emb_set)

lemma tick_queue:
  assumes "tick a base_branch track e s = (out, s')"
  shows "changes_only (t_id ` set (ready a (queue_file (wld s))) \<union> set (running s))
           (queue_file (wld s)) (queue_file (wld s'))
       \<and> set (running s') \<subseteq> set (running s) \<union> t_id ` set (ready a (queue_file (wld s)))
       \<and> (distinct (running s)
            \<and> (\<forall>x \<in> set (running s) \<union> t_id ` set (ready a (queue_file (wld s))).
                  not_completed (queue_file (wld s)) x)
           \<longrightarrow> keeps (queue_file (wld s)) (queue_file (wld s'))
               \<and> distinct (running s')
               \<and> (\<forall>x \<in> set (running s'). not_completed (queue_file (wld s')) x))"
proof -
  let ?q = "queue_file (wld s)"
  let ?R = "t_id ` set (ready a ?q)"
  let ?T = "?R \<union> set (running s)"
  obtain r1 adm s1 where al:
    "admit_loop a base_branch track e (ready a ?q) (active_workstreams ?q) s = ((r1, adm), s1)"
    by (cases "admit_loop a base_branch track e (ready a ?q) (active_workstreams ?q) s") auto
  define W where "W = (case detect_loop a e (running s1) s1 of
            (Inl err, s2) \<Rightarrow> s' = s2
          | (Inr finished, s2) \<Rightarrow> s' = snd (finish_loop a base_branch track e finished s2))"
  have dis: "(queue_file (wld s') = ?q \<and> running s' = running s)
      \<or> ((r1 \<noteq> None \<longrightarrow> s' = s1) \<and> (r1 = None \<longrightarrow> W))"
    using assms al unfolding tick_def Let_def W_def
    by (auto simp: wld_fold_print running_fold_print
        split: if_splits option.splits sum.splits prod.splits)
  show ?thesis
  proof (cases "queue_file (wld s') = ?q \<and> running s' = running s")
    case True
    then show ?thesis by auto
  next
    case False
    with dis have work: "r1 \<noteq> None \<longrightarrow> s' = s1" "r1 = None \<longrightarrow> W"
      by blast+
    from admit_loop_queue [OF al]
    have a1: "open_phase ?R ?q (queue_file (wld s1))"
      and a2: "set (running s1) \<subseteq> set (running s) \<union> ?R"
      and a3: "distinct (running s) \<longrightarrow> distinct (running s1)" by blast+
    have A: "open_phase ?T ?q (queue_file (wld s1))"
      using a1 by (rule open_phase_mono) auto
    show ?thesis
    proof (cases r1)
      case (Some err)
      with work(1) have "s' = s1" by simp
      with A a2 a3 show ?thesis unfolding open_phase_def by auto
    next
      case None
      obtain r2 s2 where dl: "detect_loop a e (running s1) s1 = (r2, s2)"
        by (cases "detect_loop a e (running s1) s1")
      from detect_loop_queue [OF dl]
      have d1: "open_phase (set (running s1)) (queue_file (wld s1)) (queue_file (wld s2))"
        and d2: "running s2 = running s1"
        and d3: "case r2 of Inl err \<Rightarrow> True | Inr finished \<Rightarrow> subseq finished (running s1)"
        by blast+
      have D: "open_phase ?T (queue_file (wld s1)) (queue_file (wld s2))"
        using d1 by (rule open_phase_mono) (use a2 in auto)
      note AD = open_phase_trans [OF A D]
      show ?thesis
      proof (cases r2)
        case (Inl err)
        with work(2) None dl have "s' = s2" by (simp add: W_def)
        with AD a2 a3 d2 show ?thesis unfolding open_phase_def by auto
      next
        case (Inr finished)
        with work(2) None dl
        have s': "s' = snd (finish_loop a base_branch track e finished s2)" by (simp add: W_def)
        obtain r3 where fl: "finish_loop a base_branch track e finished s2 = (r3, s')"
          using s' by (cases "finish_loop a base_branch track e finished s2") simp
        from d3 Inr have sub: "subseq finished (running s1)" by simp
        hence fin_sub: "set finished \<subseteq> set (running s1)"
          by (auto dest: list_emb_set)
        from finish_loop_queue [OF fl]
        have f1: "changes_only (set finished) (queue_file (wld s2)) (queue_file (wld s'))"
          and f2: "set (running s') \<subseteq> set (running s2)"
          and f3: "distinct (running s2) \<longrightarrow> distinct (running s')"
          and f4: "distinct finished
              \<and> (\<forall>x \<in> set finished \<union> set (running s2). not_completed (queue_file (wld s2)) x)
            \<longrightarrow> keeps (queue_file (wld s2)) (queue_file (wld s'))
                \<and> (\<forall>x \<in> set (running s'). not_completed (queue_file (wld s')) x)"
          by blast+
        have F: "changes_only ?T (queue_file (wld s2)) (queue_file (wld s'))"
          using f1 by (rule changes_only_mono) (use fin_sub a2 in auto)
        have 1: "changes_only ?T ?q (queue_file (wld s'))"
          using AD F unfolding open_phase_def by (blast intro: changes_only_trans)
        have 2: "set (running s') \<subseteq> set (running s) \<union> ?R"
          using f2 d2 a2 by auto
        have 3: "keeps ?q (queue_file (wld s')) \<and> distinct (running s')
               \<and> (\<forall>x \<in> set (running s'). not_completed (queue_file (wld s')) x)"
          if h: "distinct (running s)" "\<forall>x \<in> set (running s) \<union> ?R. not_completed ?q x"
        proof -
          from h(2) have hT: "\<forall>x \<in> ?T. not_completed ?q x" by auto
          with AD have k2: "keeps ?q (queue_file (wld s2))"
            and n2: "\<forall>x \<in> ?T. not_completed (queue_file (wld s2)) x"
            unfolding open_phase_def by blast+
          from h(1) a3 have ds1: "distinct (running s1)" by simp
          with sub have "distinct finished" by (rule distinct_subseq)
          moreover from n2 fin_sub a2 d2
          have "\<forall>x \<in> set finished \<union> set (running s2). not_completed (queue_file (wld s2)) x"
            by auto
          ultimately have "keeps (queue_file (wld s2)) (queue_file (wld s'))"
            and "\<forall>x \<in> set (running s'). not_completed (queue_file (wld s')) x"
            using f4 by blast+
          moreover from ds1 d2 f3 have "distinct (running s')" by simp
          ultimately show ?thesis using k2 by (auto intro: keeps_trans)
        qed
        from 1 2 3 show ?thesis by blast
      qed
    qed
  qed
qed

lemma distinct_filter_nth:
  "distinct (filter P xs) \<Longrightarrow> i < length xs \<Longrightarrow> j < length xs \<Longrightarrow> xs ! i = xs ! j
     \<Longrightarrow> P (xs ! i) \<Longrightarrow> i = j"
proof (induction xs arbitrary: i j)
  case Nil
  then show ?case by simp
next
  case (Cons x xs)
  show ?case
  proof (cases i)
    case 0
    show ?thesis
    proof (cases j)
      case 0
      with \<open>i = 0\<close> show ?thesis by simp
    next
      case (Suc j')
      with 0 Cons.prems have "P x" "xs ! j' = x" "j' < length xs" "x \<notin> set (filter P xs)"
        by auto
      hence False using nth_mem [of j' xs] by auto
      thus ?thesis ..
    qed
  next
    case (Suc i')
    show ?thesis
    proof (cases j)
      case 0
      with Suc Cons.prems have "P x" "xs ! i' = x" "i' < length xs" "x \<notin> set (filter P xs)"
        by auto
      hence False using nth_mem [of i' xs] by auto
      thus ?thesis ..
    next
      case j: (Suc j')
      from Cons.prems(1) have "distinct (filter P xs)" by (simp split: if_splits)
      with Suc j Cons.prems have "i' = j'" by (intro Cons.IH) auto
      with Suc j show ?thesis by simp
    qed
  qed
qed

lemma distinct_ids_nth:
  assumes "distinct_ids q" "i < length q" "j < length q" "raw_id (q ! i) = raw_id (q ! j)"
    "raw_id (q ! i) \<noteq> []"
  shows "i = j"
  using distinct_filter_nth [of "\<lambda>x. x \<noteq> []" "map raw_id q" i j] assms
  by (simp add: distinct_ids_def)

lemma ready_member:
  assumes "t \<in> set (ready a q)"
  shows "\<exists>i < length q. raw_id (q ! i) \<noteq> [] \<and> t = make_task i (q ! i)
           \<and> raw_status (q ! i) = ''pending''"
proof -
  from assms have "t \<in> set (load_tasks q)" "t_status t = ''pending''"
    by (simp_all add: ready_filter)
  then obtain i where "i < length q" "raw_id (q ! i) \<noteq> []" "t = make_task i (q ! i)"
    unfolding set_load_tasks by blast
  with \<open>t_status t = ''pending''\<close> show ?thesis by auto
qed

lemma ready_id_nonblank: "t \<in> set (ready a q) \<Longrightarrow> t_id t \<noteq> []"
  by (auto dest: ready_member)

lemma ready_ids_nonblank: "[] \<notin> t_id ` set (ready a q)"
proof
  assume "[] \<in> t_id ` set (ready a q)"
  then obtain t where "t \<in> set (ready a q)" "t_id t = []" by (auto simp: image_iff)
  thus False using ready_id_nonblank by blast
qed

lemma ready_not_completed:
  assumes "distinct_ids q" "t \<in> set (ready a q)"
  shows "not_completed q (t_id t)"
proof -
  from ready_member [OF assms(2)] obtain i where i: "i < length q" "raw_id (q ! i) \<noteq> []"
    "t = make_task i (q ! i)" "raw_status (q ! i) = ''pending''" by blast
  have "raw_status r \<noteq> ''completed''" if r: "r \<in> set q" "raw_id r = t_id t" for r
  proof -
    from r(1) obtain j where j: "j < length q" "r = q ! j" by (auto simp: in_set_conv_nth)
    with r(2) i have "raw_id (q ! i) = raw_id (q ! j)" by simp
    with assms(1) i j have "i = j" by (intro distinct_ids_nth [of q i j]) auto
    with i j show ?thesis by simp
  qed
  thus ?thesis unfolding not_completed_def list_all_iff by blast
qed

lemma ready_changed_pending:
  assumes "distinct_ids q" "j < length q" "raw_id (q ! j) \<in> t_id ` set (ready a q)"
  shows "raw_status (q ! j) = ''pending''"
proof -
  from assms(3) obtain t where t: "t \<in> set (ready a q)" "raw_id (q ! j) = t_id t" by blast
  from ready_member [OF t(1)] obtain i where i: "i < length q" "raw_id (q ! i) \<noteq> []"
    "t = make_task i (q ! i)" "raw_status (q ! i) = ''pending''" by blast
  with t(2) have "raw_id (q ! i) = raw_id (q ! j)" by simp
  with assms(1,2) i have "i = j" by (intro distinct_ids_nth [of q i j]) auto
  with i show ?thesis by simp
qed

lemma distinct_ids_changes_only: "changes_only T q q' \<Longrightarrow> distinct_ids q \<Longrightarrow> distinct_ids q'"
  by (simp add: distinct_ids_def changes_only_map_raw_id)

lemma tick_settled:
  assumes t: "tick a base_branch track e s = (out, s')"
    and d: "distinct_ids (queue_file (wld s))" and st: "settled s"
  shows "distinct_ids (queue_file (wld s')) \<and> settled s'
       \<and> keeps (queue_file (wld s)) (queue_file (wld s'))
       \<and> changes_only (t_id ` set (ready a (queue_file (wld s))) \<union> set (running s))
           (queue_file (wld s)) (queue_file (wld s'))"
proof -
  let ?q = "queue_file (wld s)"
  note tq = tick_queue [OF t]
  from tq have oi: "changes_only (t_id ` set (ready a ?q) \<union> set (running s)) ?q (queue_file (wld s'))"
    and sub: "set (running s') \<subseteq> set (running s) \<union> t_id ` set (ready a ?q)" by blast+
  from st have "distinct (running s)" "\<forall>x \<in> set (running s). not_completed ?q x"
    by (simp_all add: settled_def list_all_iff)
  moreover have "\<forall>x \<in> t_id ` set (ready a ?q). not_completed ?q x"
    using d by (auto intro: ready_not_completed)
  ultimately have pre: "distinct (running s)
      \<and> (\<forall>x \<in> set (running s) \<union> t_id ` set (ready a ?q). not_completed ?q x)" by blast
  with tq have k: "keeps ?q (queue_file (wld s'))" and ds: "distinct (running s')"
    and nc: "\<forall>x \<in> set (running s'). not_completed (queue_file (wld s')) x" by blast+
  from st have "[] \<notin> set (running s)" by (simp add: settled_def)
  with sub have "[] \<notin> set (running s')" using ready_ids_nonblank [of a ?q] by blast
  with ds nc have "settled s'" by (simp add: settled_def list_all_iff)
  with oi k d show ?thesis by (blast intro: distinct_ids_changes_only)
qed

lemma main_loop_settled:
  assumes "main_loop a base_branch track es s = (out, s')"
    and "distinct_ids (queue_file (wld s))" and "settled s"
  shows "distinct_ids (queue_file (wld s')) \<and> settled s'
       \<and> keeps (queue_file (wld s)) (queue_file (wld s'))"
  using assms
proof (induction es arbitrary: s)
  case Nil
  then show ?case by simp
next
  case (Cons e es)
  obtain o1 s1 where t: "tick a base_branch track e s = (o1, s1)"
    by (cases "tick a base_branch track e s")
  from tick_settled [OF t Cons.prems(2,3)]
  have d1: "distinct_ids (queue_file (wld s1))" and st1: "settled s1"
    and k1: "keeps (queue_file (wld s)) (queue_file (wld s1))" by blast+
  show ?case
  proof (cases "o1 = Running")
    case True
    let ?s = "s1\<lparr> wld := (wld s1)\<lparr> run_files := worker_files e (run_files (wld s1)) \<rparr> \<rparr>"
    from Cons.prems(1) t True have ml: "main_loop a base_branch track es ?s = (out, s')"
      by simp
    have q: "queue_file (wld ?s) = queue_file (wld s1)" by simp
    from d1 have d: "distinct_ids (queue_file (wld ?s))" by simp
    from st1 have st: "settled ?s" by (simp add: settled_def)
    from Cons.IH [OF ml d st] k1 show ?thesis
      unfolding q by (blast intro: keeps_trans)
  next
    case False
    with Cons.prems(1) t have "s' = s1" by (cases o1) auto
    with d1 st1 k1 show ?thesis by simp
  qed
qed

lemma tick_blank:
  assumes t: "tick a base_branch track e s = (out, s')" and nb: "[] \<notin> set (running s)"
  shows "[] \<notin> set (running s')
       \<and> changes_only {x. x \<noteq> []} (queue_file (wld s)) (queue_file (wld s'))"
proof -
  let ?q = "queue_file (wld s)"
  note tq = tick_queue [OF t]
  from tq have oi: "changes_only (t_id ` set (ready a ?q) \<union> set (running s)) ?q (queue_file (wld s'))"
    and sub: "set (running s') \<subseteq> set (running s) \<union> t_id ` set (ready a ?q)" by blast+
  from sub nb have "[] \<notin> set (running s')" using ready_ids_nonblank [of a ?q] by blast
  moreover from oi have "changes_only {x. x \<noteq> []} ?q (queue_file (wld s'))"
    by (rule changes_only_mono) (use nb ready_ids_nonblank [of a ?q] in blast)
  ultimately show ?thesis by blast
qed

lemma main_loop_blank:
  assumes "main_loop a base_branch track es s = (out, s')" and "[] \<notin> set (running s)"
  shows "[] \<notin> set (running s')
       \<and> changes_only {x. x \<noteq> []} (queue_file (wld s)) (queue_file (wld s'))"
  using assms
proof (induction es arbitrary: s)
  case Nil
  then show ?case by simp
next
  case (Cons e es)
  obtain o1 s1 where t: "tick a base_branch track e s = (o1, s1)"
    by (cases "tick a base_branch track e s")
  from tick_blank [OF t Cons.prems(2)]
  have nb1: "[] \<notin> set (running s1)"
    and o1: "changes_only {x. x \<noteq> []} (queue_file (wld s)) (queue_file (wld s1))" by blast+
  show ?case
  proof (cases "o1 = Running")
    case True
    let ?s = "s1\<lparr> wld := (wld s1)\<lparr> run_files := worker_files e (run_files (wld s1)) \<rparr> \<rparr>"
    from Cons.prems(1) t True have ml: "main_loop a base_branch track es ?s = (out, s')"
      by simp
    have q: "queue_file (wld ?s) = queue_file (wld s1)" by simp
    from nb1 have nb: "[] \<notin> set (running ?s)" by simp
    from Cons.IH [OF ml nb] o1 show ?thesis
      unfolding q by (blast intro: changes_only_trans)
  next
    case False
    with Cons.prems(1) t have "s' = s1" by (cases o1) auto
    with nb1 o1 show ?thesis by simp
  qed
qed

section \<open>Completed tasks\<close>

text \<open>
  C7, as stated, holds for every queue. \<^verbatim>\<open>_update_task\<close> addresses a task object by its
  id and updates the first one that has it: when a completed object and a pending one share
  an id, the admission of the pending task sets the completed object to \<^verbatim>\<open>in_progress\<close>.
\<close>

theorem completed_reopened_counterexample:
  "raw_status (queue_dup ! 0) = ''completed''
   \<and> running (initial (world0 queue_dup)) = []
   \<and> raw_status (queue_file (wld (snd (tick args0 ''main'' [''q.json''] env0
                                         (initial (world0 queue_dup))))) ! 0) = ''in_progress''"
  by code_simp

text \<open>
  C7, amended: when no two task objects of the queue share an id, \<^verbatim>\<open>completed\<close> is
  terminal. In a run of the loop that starts with an empty running map, at every tick: the
  queue keeps its length and every task object its id; a task object that is completed
  before the tick is the same after it; and a task object the tick changes was pending or
  had its id in the running map before the tick.
\<close>

theorem completed_is_terminal:
  assumes "distinct_ids (queue_file (wld s))" and "running s = []"
    and "main_loop a base_branch track es s = (Running, s1)"
    and "tick a base_branch track e s1 = (out, s2)"
  shows "length (queue_file (wld s2)) = length (queue_file (wld s1))
       \<and> (\<forall>i < length (queue_file (wld s1)).
             raw_id (queue_file (wld s2) ! i) = raw_id (queue_file (wld s1) ! i)
             \<and> (raw_status (queue_file (wld s1) ! i) = ''completed''
                  \<longrightarrow> queue_file (wld s2) ! i = queue_file (wld s1) ! i)
             \<and> (queue_file (wld s2) ! i \<noteq> queue_file (wld s1) ! i
                  \<longrightarrow> raw_status (queue_file (wld s1) ! i) = ''pending''
                      \<or> raw_id (queue_file (wld s1) ! i) \<in> set (running s1)))"
proof -
  let ?q1 = "queue_file (wld s1)" and ?q2 = "queue_file (wld s2)"
  from assms(2) have st: "settled s" by (simp add: settled_def)
  from main_loop_settled [OF assms(3) assms(1) st]
  have d1: "distinct_ids ?q1" and st1: "settled s1" by blast+
  from tick_settled [OF assms(4) d1 st1]
  have k: "keeps ?q1 ?q2"
    and oi: "changes_only (t_id ` set (ready a ?q1) \<union> set (running s1)) ?q1 ?q2" by blast+
  from oi have len: "length ?q2 = length ?q1" by (simp add: changes_only_def)
  have "raw_id (?q2 ! i) = raw_id (?q1 ! i)
      \<and> (raw_status (?q1 ! i) = ''completed'' \<longrightarrow> ?q2 ! i = ?q1 ! i)
      \<and> (?q2 ! i \<noteq> ?q1 ! i
           \<longrightarrow> raw_status (?q1 ! i) = ''pending'' \<or> raw_id (?q1 ! i) \<in> set (running s1))"
    if i: "i < length ?q1" for i
  proof -
    from oi i have 1: "raw_id (?q2 ! i) = raw_id (?q1 ! i)"
      and c: "?q2 ! i = ?q1 ! i \<or> raw_id (?q1 ! i) \<in> t_id ` set (ready a ?q1) \<union> set (running s1)"
      unfolding changes_only_def by blast+
    from k i have 2: "raw_status (?q1 ! i) = ''completed'' \<longrightarrow> ?q2 ! i = ?q1 ! i"
      unfolding keeps_def by blast
    have 3: "raw_status (?q1 ! i) = ''pending'' \<or> raw_id (?q1 ! i) \<in> set (running s1)"
      if ne: "?q2 ! i \<noteq> ?q1 ! i"
    proof (cases "raw_id (?q1 ! i) \<in> set (running s1)")
      case True
      then show ?thesis ..
    next
      case False
      with c ne have "raw_id (?q1 ! i) \<in> t_id ` set (ready a ?q1)" by blast
      from ready_changed_pending [OF d1 i this] show ?thesis ..
    qed
    from 1 2 3 show ?thesis by blast
  qed
  with len show ?thesis by blast
qed

theorem completed_is_terminal_witness:
  "distinct_ids queue_ab
   \<and> fst (main_loop args0 ''main'' [''q.json''] [env0] (initial (world0 queue_ab))) = Running
   \<and> raw_status (queue_file (wld (snd (main_loop args0 ''main'' [''q.json''] [env0]
                                         (initial (world0 queue_ab))))) ! 0) = ''completed''
   \<and> raw_status (queue_file (wld (snd (main_loop args0 ''main'' [''q.json''] [env0]
                                         (initial (world0 queue_ab))))) ! 1) = ''in_progress''
   \<and> queue_file (wld (snd (tick args0 ''main'' [''q.json''] env_exited
                        (snd (main_loop args0 ''main'' [''q.json''] [env0]
                                (initial (world0 queue_ab))))))) ! 0
       = queue_file (wld (snd (main_loop args0 ''main'' [''q.json''] [env0]
                                 (initial (world0 queue_ab))))) ! 0
   \<and> raw_status (queue_file (wld (snd (tick args0 ''main'' [''q.json''] env_exited
                        (snd (main_loop args0 ''main'' [''q.json''] [env0]
                                (initial (world0 queue_ab))))))) ! 1) = ''blocked''"
proof -
  let ?s = "initial (world0 queue_ab)"
  let ?M = "main_loop args0 ''main'' [''q.json''] [env0] ?s"
  let ?T = "tick args0 ''main'' [''q.json''] env_exited (snd ?M)"
  have d: "distinct_ids queue_ab" by code_simp
  hence d': "distinct_ids (queue_file (wld ?s))" by (simp add: initial_def world0_def)
  have r: "running ?s = []" by (simp add: initial_def)
  have f: "fst ?M = Running" by code_simp
  hence m: "?M = (Running, snd ?M)" by (metis prod.collapse)
  have t: "?T = (fst ?T, snd ?T)" by simp
  have len: "0 < length (queue_file (wld (snd ?M)))" by code_simp
  have c: "raw_status (queue_file (wld (snd ?M)) ! 0) = ''completed''" by code_simp
  have p: "raw_status (queue_file (wld (snd ?M)) ! 1) = ''in_progress''" by code_simp
  have b: "raw_status (queue_file (wld (snd ?T)) ! 1) = ''blocked''" by code_simp
  from completed_is_terminal [OF d' r m t] len c
  have "queue_file (wld (snd ?T)) ! 0 = queue_file (wld (snd ?M)) ! 0" by blast
  with d f c p b show ?thesis by blast
qed

section \<open>Task objects without an id\<close>

lemma map_t_id_load_tasks:
  "map t_id (load_tasks payload) = filter (\<lambda>x. x \<noteq> []) (map raw_id payload)"
proof -
  have "filter (\<lambda>x. x \<noteq> []) (map raw_id payload)
      = filter (\<lambda>x. x \<noteq> []) (map (\<lambda>p. raw_id (snd p)) (enumerate 0 payload))"
  proof -
    have "map (\<lambda>p. raw_id (snd p)) (enumerate 0 payload) = map raw_id payload"
      using arg_cong [OF map_snd_enumerate [of 0 payload], of "map raw_id"]
      by (simp only: map_map comp_def)
    thus ?thesis by (rule arg_cong [symmetric])
  qed
  also have "\<dots> = map (\<lambda>p. raw_id (snd p)) (filter (\<lambda>p. raw_id (snd p) \<noteq> []) (enumerate 0 payload))"
    by (simp add: filter_map comp_def)
  also have "\<dots> = map t_id (load_tasks payload)"
    by (simp add: load_tasks_def case_prod_unfold comp_def)
  finally show ?thesis by simp
qed

lemma blank_not_loaded:
  assumes "i < length payload" "raw_id (payload ! i) = []"
  shows "i \<notin> t_index ` set (load_tasks payload)"
proof
  assume "i \<in> t_index ` set (load_tasks payload)"
  then obtain t where t: "t \<in> set (load_tasks payload)" "t_index t = i" by auto
  from t(1) obtain j where "j < length payload" "raw_id (payload ! j) \<noteq> []"
    "t = make_task j (payload ! j)" unfolding set_load_tasks by blast
  with t(2) assms show False by simp
qed

lemma set_ready_subset: "set (ready a payload) \<subseteq> set (load_tasks payload)"
  by (auto simp: ready_filter)

lemma done_ids_without_blank:
  "done_ids (load_tasks payload) = done_ids (load_tasks (filter (\<lambda>r. raw_id r \<noteq> []) payload))"
  unfolding done_ids_payload by auto

lemma blank_not_done: "[] \<notin> done_ids (load_tasks payload)"
  unfolding done_ids_payload by auto

text \<open>
  C10: a task object whose id is missing, empty or blank is left out when the tasks are
  loaded, and \<^verbatim>\<open>_load_tasks\<close> has no error to report for it: the loaded tasks are the
  objects with an id, in their order. In a run of the loop whose running map holds no
  empty id (it is empty at the start), after any number of ticks the object is the one it
  was; no loaded task and no runnable task stands for its position; and the \<^verbatim>\<open>done\<close> set
  does not hold its id and is the set of the queue without the objects that have no id.
\<close>

theorem blank_id_record_is_left_out:
  assumes "i < length (queue_file (wld s))" and "raw_id (queue_file (wld s) ! i) = []"
    and "[] \<notin> set (running s)"
    and "main_loop a base_branch track es s = (out, s')"
  shows "queue_file (wld s') ! i = queue_file (wld s) ! i
       \<and> length (queue_file (wld s')) = length (queue_file (wld s))
       \<and> [] \<notin> set (running s')
       \<and> map t_id (load_tasks (queue_file (wld s')))
           = filter (\<lambda>x. x \<noteq> []) (map raw_id (queue_file (wld s')))
       \<and> i \<notin> t_index ` set (load_tasks (queue_file (wld s')))
       \<and> i \<notin> t_index ` set (ready a (queue_file (wld s')))
       \<and> [] \<notin> done_ids (load_tasks (queue_file (wld s')))
       \<and> done_ids (load_tasks (queue_file (wld s')))
           = done_ids (load_tasks (filter (\<lambda>r. raw_id r \<noteq> []) (queue_file (wld s'))))"
proof -
  let ?q = "queue_file (wld s)" and ?q' = "queue_file (wld s')"
  from main_loop_blank [OF assms(4) assms(3)]
  have nb: "[] \<notin> set (running s')" and oi: "changes_only {x. x \<noteq> []} ?q ?q'" by blast+
  from oi have len: "length ?q' = length ?q" by (simp add: changes_only_def)
  from oi assms(1,2) have same: "?q' ! i = ?q ! i" unfolding changes_only_def by blast
  from assms(1,2) len same have i': "i < length ?q'" "raw_id (?q' ! i) = []" by simp_all
  from blank_not_loaded [OF i'] have nl: "i \<notin> t_index ` set (load_tasks ?q')" .
  with set_ready_subset [of a ?q'] have nr: "i \<notin> t_index ` set (ready a ?q')" by blast
  from same len nb nl nr show ?thesis
    using map_t_id_load_tasks [of ?q'] blank_not_done [of ?q'] done_ids_without_blank [of ?q']
    by blast
qed

theorem blank_id_record_is_left_out_witness:
  "0 < length queue_blank \<and> raw_id (queue_blank ! 0) = []
   \<and> rt_id (queue_blank ! 0) = Some ''  ''
   \<and> queue_file (wld (snd (main_loop args0 ''main'' [''q.json''] [env0, env_exited]
                             (initial (world0 queue_blank))))) ! 0 = queue_blank ! 0
   \<and> map t_id (load_tasks (queue_file (wld (snd (main_loop args0 ''main'' [''q.json'']
                             [env0, env_exited] (initial (world0 queue_blank))))))) = [''B'']
   \<and> 0 \<notin> t_index ` set (ready args0 (queue_file (wld (snd (main_loop args0 ''main''
                             [''q.json''] [env0, env_exited] (initial (world0 queue_blank)))))))
   \<and> [] \<notin> done_ids (load_tasks (queue_file (wld (snd (main_loop args0 ''main'' [''q.json'']
                             [env0, env_exited] (initial (world0 queue_blank)))))))"
proof -
  let ?s = "initial (world0 queue_blank)"
  let ?M = "main_loop args0 ''main'' [''q.json''] [env0, env_exited] ?s"
  have q: "queue_file (wld ?s) = queue_blank" by (simp add: initial_def world0_def)
  have l: "0 < length queue_blank" by (simp add: queue_blank_def)
  have b: "raw_id (queue_blank ! 0) = []" by code_simp
  have v: "rt_id (queue_blank ! 0) = Some ''  ''" by (simp add: queue_blank_def obj_def no_task_def)
  have r: "[] \<notin> set (running ?s)" by (simp add: initial_def)
  have m: "?M = (fst ?M, snd ?M)" by simp
  have ids: "filter (\<lambda>x. x \<noteq> []) (map raw_id (queue_file (wld (snd ?M)))) = [''B'']"
    by code_simp
  note t = blank_id_record_is_left_out [of 0 ?s args0 "''main''" "[''q.json'']"
      "[env0, env_exited]" "fst ?M" "snd ?M", unfolded q, OF l b r m]
  from t have t1: "queue_file (wld (snd ?M)) ! 0 = queue_blank ! 0"
    and t4: "map t_id (load_tasks (queue_file (wld (snd ?M))))
               = filter (\<lambda>x. x \<noteq> []) (map raw_id (queue_file (wld (snd ?M))))"
    and t6: "0 \<notin> t_index ` set (ready args0 (queue_file (wld (snd ?M))))"
    and t7: "[] \<notin> done_ids (load_tasks (queue_file (wld (snd ?M))))" by blast+
  from t4 ids have t4': "map t_id (load_tasks (queue_file (wld (snd ?M)))) = [''B'']"
    by (rule trans)
  from l b v t1 t4' t6 t7 show ?thesis by blast
qed

end
